theory Spec2Isabelle
  imports Main
begin

section \<open>Python values, errors and messages\<close>

text \<open>
  Exceptions are values. The three message-carrying constructors are the exceptions that
  \<^verbatim>\<open>Image.py\<close> raises itself, with the text of their f-strings. The three
  \<open>Numpy_\<close> constructors are exceptions of the same Python classes raised inside NumPy
  (indexing past the shape of the array, a value that cannot be broadcast, an object that
  cannot be converted to a number); their texts are not part of the repository and are
  not modelled.
\<close>

datatype error =
    ValueError string
  | TypeError string
  | IndexError string
  | Numpy_IndexError
  | Numpy_ValueError
  | Numpy_TypeError

text \<open>What \<^verbatim>\<open>except IndexError\<close> catches.\<close>

fun is_IndexError :: "error \<Rightarrow> bool" where
  "is_IndexError (IndexError m) = True"
| "is_IndexError Numpy_IndexError = True"
| "is_IndexError e = False"

text \<open>Python's \<^verbatim>\<open>str\<close> of an integer, as the f-strings print it.\<close>

definition digit_char :: "nat \<Rightarrow> char" where
  "digit_char d = ''0123456789'' ! d"

fun str_nat :: "nat \<Rightarrow> string" where
  "str_nat n = (if n < 10 then [digit_char n] else str_nat (n div 10) @ [digit_char (n mod 10)])"

declare str_nat.simps [simp del]

definition str_int :: "int \<Rightarrow> string" where
  "str_int i = (if i < 0 then CHR ''-'' # str_nat (nat (- i)) else str_nat (nat i))"

text \<open>
  Reading a decimal text back: the value of a digit, of a digit string and of a signed
  digit string. Used to show that the printed text determines the number.
\<close>

definition digit_val :: "char \<Rightarrow> nat" where
  "digit_val c = length (takeWhile (\<lambda>d. d \<noteq> c) ''0123456789'')"

definition read_nat :: "string \<Rightarrow> nat" where
  "read_nat s = foldl (\<lambda>a c. 10 * a + digit_val c) 0 s"

definition read_int :: "string \<Rightarrow> int" where
  "read_int s = (case s of
       [] \<Rightarrow> 0
     | c # cs \<Rightarrow> if c = CHR ''-'' then - int (read_nat cs) else int (read_nat s))"

section \<open>The colour value \<^verbatim>\<open>rgba\<close>\<close>

record rgba =
  rgba_r :: int
  rgba_g :: int
  rgba_b :: int
  rgba_a :: int

text \<open>
  \<^verbatim>\<open>__post_init__\<close>: the loop over the four components, raising at the first one that
  is not in \<open>0..255\<close>. The fields are Python ints here, so the \<^verbatim>\<open>isinstance\<close> test
  is true.
\<close>

fun post_init_loop :: "(string \<times> int) list \<Rightarrow> error option" where
  "post_init_loop [] = None"
| "post_init_loop ((component, v) # rest) =
     (if \<not> (0 \<le> v \<and> v \<le> 255)
      then Some (ValueError (''RGBA component '' @ component @ '' must be an int from 0 to 255''))
      else post_init_loop rest)"

definition post_init :: "rgba \<Rightarrow> error option" where
  "post_init c =
     post_init_loop [(''r'', rgba_r c), (''g'', rgba_g c), (''b'', rgba_b c), (''a'', rgba_a c)]"

text \<open>The constructor \<^verbatim>\<open>rgba(r, g, b, a)\<close>; the defaults are \<open>0, 0, 0, 255\<close>.\<close>

definition mk_rgba :: "int \<Rightarrow> int \<Rightarrow> int \<Rightarrow> int \<Rightarrow> error + rgba" where
  "mk_rgba r g b a =
     (let c = \<lparr>rgba_r = r, rgba_g = g, rgba_b = b, rgba_a = a\<rparr>
      in case post_init c of Some e \<Rightarrow> Inl e | None \<Rightarrow> Inr c)"

type_synonym pixel = "int \<times> int \<times> int \<times> int"

definition as_tuple :: "rgba \<Rightarrow> pixel" where
  "as_tuple c = (rgba_r c, rgba_g c, rgba_b c, rgba_a c)"

section \<open>Colour arguments and their normalisation\<close>

text \<open>
  The values a caller can pass where a colour is expected: \<^verbatim>\<open>None\<close>, an
  \<^verbatim>\<open>rgba\<close> instance, a sequence of three or of four Python ints, or an object of
  another type that is neither a number nor a sequence (\<open>Other\<close> carries the name of its
  type). Channels that are not Python ints (floats, strings) are outside this model.
\<close>

datatype color_arg =
    PyNone
  | RgbaVal rgba
  | Tuple3 int int int
  | Tuple4 int int int int
  | Other string

text \<open>\<^verbatim>\<open>Image._validate_rgba\<close>: the \<^verbatim>\<open>match\<close> statement, case by case.\<close>

fun validate_rgba :: "color_arg \<Rightarrow> error + pixel" where
  "validate_rgba PyNone = Inr (255, 255, 255, 255)"
| "validate_rgba (RgbaVal c) = Inr (rgba_r c, rgba_g c, rgba_b c, rgba_a c)"
| "validate_rgba (Tuple3 r g b) = Inr (r, g, b, 255)"
| "validate_rgba (Tuple4 r g b a) = Inr (r, g, b, a)"
| "validate_rgba (Other tn) = Inl (TypeError (''Invalid type of RGBA color: '' @ tn))"

text \<open>A normalised tuple passed on as an argument again (as \<^verbatim>\<open>line\<close> does).\<close>

fun tuple_arg :: "pixel \<Rightarrow> color_arg" where
  "tuple_arg (r, g, b, a) = Tuple4 r g b a"

section \<open>The NumPy buffer\<close>

text \<open>
  The buffer is an array of shape \<open>(height, width, 4)\<close> and dtype \<^verbatim>\<open>uint8\<close>: a list
  of rows, each a list of pixels. A Python int stored into it keeps its low eight bits
  (the conversion of \<^verbatim>\<open>np.full\<close>; item assignment does the same before NumPy 2 and
  raises \<^verbatim>\<open>OverflowError\<close> from NumPy 2 on). On \<open>0..255\<close> the conversion is the
  identity in every version.
\<close>

definition uint8 :: "int \<Rightarrow> int" where
  "uint8 v = v mod 256"

fun uint8_px :: "pixel \<Rightarrow> pixel" where
  "uint8_px (r, g, b, a) = (uint8 r, uint8 g, uint8 b, uint8 a)"

text \<open>An integer index into an axis of size \<open>n\<close>: negative indices count from the end.\<close>

definition np_index :: "nat \<Rightarrow> int \<Rightarrow> nat option" where
  "np_index n i =
     (if 0 \<le> i \<and> i < int n then Some (nat i)
      else if - int n \<le> i \<and> i < 0 then Some (nat (i + int n))
      else None)"

text \<open>\<^verbatim>\<open>arr[y, x]\<close>, read and written.\<close>

definition np_getitem :: "pixel list list \<Rightarrow> int \<Rightarrow> int \<Rightarrow> error + pixel" where
  "np_getitem arr y x =
     (case np_index (length arr) y of
        None \<Rightarrow> Inl Numpy_IndexError
      | Some j \<Rightarrow>
          (case np_index (length (arr ! j)) x of
             None \<Rightarrow> Inl Numpy_IndexError
           | Some i \<Rightarrow> Inr (arr ! j ! i)))"

definition np_setitem :: "pixel list list \<Rightarrow> int \<Rightarrow> int \<Rightarrow> pixel \<Rightarrow> error + pixel list list" where
  "np_setitem arr y x v =
     (case np_index (length arr) y of
        None \<Rightarrow> Inl Numpy_IndexError
      | Some j \<Rightarrow>
          (case np_index (length (arr ! j)) x of
             None \<Rightarrow> Inl Numpy_IndexError
           | Some i \<Rightarrow> Inr (arr[j := (arr ! j)[i := uint8_px v]])))"

text \<open>A slice bound \<open>i\<close> on an axis of size \<open>n\<close>, as Python normalises it.\<close>

definition slice_bound :: "nat \<Rightarrow> int \<Rightarrow> nat" where
  "slice_bound n i = (if i < 0 then nat (max 0 (i + int n)) else nat (min i (int n)))"

text \<open>\<^verbatim>\<open>arr[ys:ye, xs:xe] = v\<close> with a 4-tuple \<open>v\<close>, broadcast over the block.\<close>

definition np_setslice ::
  "pixel list list \<Rightarrow> int \<Rightarrow> int \<Rightarrow> int \<Rightarrow> int \<Rightarrow> pixel \<Rightarrow> pixel list list" where
  "np_setslice arr ys ye xs xe v =
     map (\<lambda>(j, row).
            if slice_bound (length arr) ys \<le> j \<and> j < slice_bound (length arr) ye
            then map (\<lambda>(i, p).
                        if slice_bound (length row) xs \<le> i \<and> i < slice_bound (length row) xe
                        then uint8_px v else p)
                     (zip [0..<length row] row)
            else row)
         (zip [0..<length arr] arr)"

text \<open>
  \<^verbatim>\<open>arr[:] = color\<close> with the caller's object as it is: a sequence of four ints is
  broadcast over the last axis, a sequence of three cannot be broadcast to a last axis of
  size four, and \<^verbatim>\<open>None\<close>, an \<^verbatim>\<open>rgba\<close> instance or another non-numeric object
  cannot be converted to \<^verbatim>\<open>uint8\<close>.
\<close>

fun np_assign_all :: "pixel list list \<Rightarrow> color_arg \<Rightarrow> error + pixel list list" where
  "np_assign_all arr (Tuple4 r g b a) = Inr (map (map (\<lambda>p. uint8_px (r, g, b, a))) arr)"
| "np_assign_all arr (Tuple3 r g b) = Inl Numpy_ValueError"
| "np_assign_all arr PyNone = Inl Numpy_TypeError"
| "np_assign_all arr (RgbaVal c) = Inl Numpy_TypeError"
| "np_assign_all arr (Other tn) = Inl Numpy_TypeError"

section \<open>The class \<^verbatim>\<open>Image\<close>\<close>

record image =
  width :: int
  height :: int
  rgba_data :: "pixel list list"

text \<open>
  \<^verbatim>\<open>Image.__init__\<close>: the fill colour is normalised first, then \<^verbatim>\<open>np.full\<close>
  allocates the buffer (it raises \<^verbatim>\<open>ValueError\<close> on a negative dimension).
\<close>

definition Image :: "int \<Rightarrow> int \<Rightarrow> color_arg \<Rightarrow> error + image" where
  "Image w h fill_color =
     (case validate_rgba fill_color of
        Inl e \<Rightarrow> Inl e
      | Inr fill \<Rightarrow>
          if w < 0 \<or> h < 0 then Inl Numpy_ValueError
          else Inr \<lparr>width = w, height = h,
                    rgba_data = replicate (nat h) (replicate (nat w) (uint8_px fill))\<rparr>)"

text \<open>The two f-strings of the \<^verbatim>\<open>IndexError\<close>s.\<close>

definition bounds_msg :: "int \<Rightarrow> int \<Rightarrow> int \<Rightarrow> int \<Rightarrow> string" where
  "bounds_msg x w y h =
     ''X or Y values out of range x='' @ str_int x @ '' self.width='' @ str_int w
       @ '' y='' @ str_int y @ '' self.height='' @ str_int h"

definition pixel_msg :: "int \<Rightarrow> int \<Rightarrow> string" where
  "pixel_msg x y = ''Pixel (x='' @ str_int x @ '', y='' @ str_int y @ '') is out of bounds!''"

text \<open>\<^verbatim>\<open>Image._check_bounds\<close>: \<open>None\<close> when it returns, the exception otherwise.\<close>

definition check_bounds :: "image \<Rightarrow> int \<Rightarrow> int \<Rightarrow> error option" where
  "check_bounds img x y =
     (if \<not> (0 \<le> x \<and> x \<le> width img \<and> 0 \<le> y \<and> y \<le> height img)
      then Some (IndexError (bounds_msg x (width img) y (height img)))
      else None)"

definition get_pixel :: "image \<Rightarrow> int \<Rightarrow> int \<Rightarrow> error + pixel" where
  "get_pixel img x y =
     (case check_bounds img x y of
        Some e \<Rightarrow> Inl e
      | None \<Rightarrow> np_getitem (rgba_data img) y x)"

text \<open>
  The operations that mutate the image return the exception raised, if any, and the image
  as it is when the call ends, so that what an aborted call has already written is
  visible.
\<close>

definition set_pixel :: "image \<Rightarrow> int \<Rightarrow> int \<Rightarrow> color_arg \<Rightarrow> error option \<times> image" where
  "set_pixel img x y v =
     (case check_bounds img x y of
        Some e \<Rightarrow> (Some e, img)
      | None \<Rightarrow>
          (case validate_rgba v of
             Inl e \<Rightarrow> (Some e, img)
           | Inr t \<Rightarrow>
               (case np_setitem (rgba_data img) y x t of
                  Inl e \<Rightarrow> (Some e, img)
                | Inr d \<Rightarrow> (None, img\<lparr>rgba_data := d\<rparr>))))"

text \<open>\<^verbatim>\<open>Image.clear\<close>: the argument goes to the buffer assignment as it is.\<close>

definition clear :: "image \<Rightarrow> color_arg \<Rightarrow> error option \<times> image" where
  "clear img color =
     (case np_assign_all (rgba_data img) color of
        Inl e \<Rightarrow> (Some e, img)
      | Inr d \<Rightarrow> (None, img\<lparr>rgba_data := d\<rparr>))"

text \<open>
  \<^verbatim>\<open>Image.line\<close>. The two \<^verbatim>\<open>for\<close> loops, with the number of iterations left
  as the recursion argument; an \<^verbatim>\<open>IndexError\<close> of \<^verbatim>\<open>set_pixel\<close> is caught and
  raised again with the pixel's message, any other exception passes through.
\<close>

fun line_loop_x ::
  "int \<Rightarrow> int \<Rightarrow> int \<Rightarrow> int \<Rightarrow> pixel \<Rightarrow> nat \<Rightarrow> int \<Rightarrow> int \<Rightarrow> int \<Rightarrow> image
     \<Rightarrow> error option \<times> image" where
  "line_loop_x dx dy sx_step sy_step line_color 0 x y deviation img = (None, img)"
| "line_loop_x dx dy sx_step sy_step line_color (Suc n) x y deviation img =
     (case set_pixel img x y (tuple_arg line_color) of
        (Some e, img') \<Rightarrow>
          (if is_IndexError e then (Some (IndexError (pixel_msg x y)), img') else (Some e, img'))
      | (None, img') \<Rightarrow>
          (let x' = x + sx_step; deviation' = deviation - dy
           in if deviation' < 0
              then line_loop_x dx dy sx_step sy_step line_color n x' (y + sy_step)
                     (deviation' + dx) img'
              else line_loop_x dx dy sx_step sy_step line_color n x' y deviation' img'))"

fun line_loop_y ::
  "int \<Rightarrow> int \<Rightarrow> int \<Rightarrow> int \<Rightarrow> pixel \<Rightarrow> nat \<Rightarrow> int \<Rightarrow> int \<Rightarrow> int \<Rightarrow> image
     \<Rightarrow> error option \<times> image" where
  "line_loop_y dx dy sx_step sy_step line_color 0 x y deviation img = (None, img)"
| "line_loop_y dx dy sx_step sy_step line_color (Suc n) x y deviation img =
     (case set_pixel img x y (tuple_arg line_color) of
        (Some e, img') \<Rightarrow>
          (if is_IndexError e then (Some (IndexError (pixel_msg x y)), img') else (Some e, img'))
      | (None, img') \<Rightarrow>
          (let y' = y + sy_step; deviation' = deviation - dx
           in if deviation' < 0
              then line_loop_y dx dy sx_step sy_step line_color n (x + sx_step) y'
                     (deviation' + dy) img'
              else line_loop_y dx dy sx_step sy_step line_color n x y' deviation' img'))"

definition line :: "image \<Rightarrow> int \<Rightarrow> int \<Rightarrow> int \<Rightarrow> int \<Rightarrow> color_arg \<Rightarrow> error option \<times> image" where
  "line img sx sy ex ey color =
     (case validate_rgba color of
        Inl e \<Rightarrow> (Some e, img)
      | Inr line_color \<Rightarrow>
          (let dx = \<bar>sx - ex\<bar>;
               dy = \<bar>sy - ey\<bar>;
               sx_step = (if sx < ex then 1 else - 1);
               sy_step = (if sy < ey then 1 else - 1)
           in if dx > dy
              then line_loop_x dx dy sx_step sy_step line_color (nat (dx + 1)) sx sy (dx div 2) img
              else line_loop_y dx dy sx_step sy_step line_color (nat (dy + 1)) sx sy (dy div 2) img))"

text \<open>\<^verbatim>\<open>sorted\<close> on a pair, unpacked into two names.\<close>

definition sorted2 :: "int \<Rightarrow> int \<Rightarrow> int \<times> int" where
  "sorted2 p q = (if q < p then (q, p) else (p, q))"

text \<open>\<^verbatim>\<open>Image.rectangle\<close>: normalise, sort the corners, clip, return early or fill.\<close>

definition rectangle ::
  "image \<Rightarrow> int \<Rightarrow> int \<Rightarrow> int \<Rightarrow> int \<Rightarrow> color_arg \<Rightarrow> error option \<times> image" where
  "rectangle img tx ty bx byy color =
     (case validate_rgba color of
        Inl e \<Rightarrow> (Some e, img)
      | Inr fill \<Rightarrow>
          (let (x1, x2) = sorted2 tx bx;
               (y1, y2) = sorted2 ty byy;
               x1 = max 0 x1;
               y1 = max 0 y1;
               x2 = min (width img - 1) x2;
               y2 = min (height img - 1) y2
           in if x1 > x2 \<or> y1 > y2 then (None, img)
              else (None, img\<lparr>rgba_data :=
                      np_setslice (rgba_data img) y1 (y2 + 1) x1 (x2 + 1) fill\<rparr>)))"

section \<open>Well-formed images and valid colours\<close>

text \<open>
  The shape of the buffer agrees with the two size fields. The constructor establishes
  this and every operation keeps it.
\<close>

definition wf_image :: "image \<Rightarrow> bool" where
  "wf_image img \<longleftrightarrow>
     0 \<le> width img \<and> 0 \<le> height img \<and> length (rgba_data img) = nat (height img)
     \<and> (\<forall>row \<in> set (rgba_data img). length row = nat (width img))"

text \<open>A channel value that \<^verbatim>\<open>uint8\<close> holds as it is, and a colour of four such.\<close>

definition channel_ok :: "int \<Rightarrow> bool" where
  "channel_ok v \<longleftrightarrow> 0 \<le> v \<and> v \<le> 255"

fun pixel_ok :: "pixel \<Rightarrow> bool" where
  "pixel_ok (r, g, b, a) \<longleftrightarrow> channel_ok r \<and> channel_ok g \<and> channel_ok b \<and> channel_ok a"

text \<open>The coordinates that index the buffer: the half-open ranges of its shape.\<close>

definition inside :: "image \<Rightarrow> int \<times> int \<Rightarrow> bool" where
  "inside img p \<longleftrightarrow> 0 \<le> fst p \<and> fst p < width img \<and> 0 \<le> snd p \<and> snd p < height img"

text \<open>The image with one pixel overwritten (the effect of a successful \<^verbatim>\<open>set_pixel\<close>).\<close>

definition write_px :: "pixel \<Rightarrow> int \<times> int \<Rightarrow> image \<Rightarrow> image" where
  "write_px v p img =
     img\<lparr>rgba_data := (rgba_data img)[nat (snd p) :=
            (rgba_data img ! nat (snd p))[nat (fst p) := uint8_px v]]\<rparr>"

text \<open>The image with an inclusive block of pixels overwritten (the slice assignment).\<close>

definition fill_block :: "pixel \<Rightarrow> int \<Rightarrow> int \<Rightarrow> int \<Rightarrow> int \<Rightarrow> image \<Rightarrow> image" where
  "fill_block v x1 y1 x2 y2 img =
     img\<lparr>rgba_data := np_setslice (rgba_data img) y1 (y2 + 1) x1 (x2 + 1) v\<rparr>"

text \<open>
  The \<^verbatim>\<open>small_image\<close> fixture of the test suite, \<^verbatim>\<open>Image(10, 10)\<close>.
\<close>

definition small_image :: image where
  "small_image = \<lparr>width = 10, height = 10,
                   rgba_data = replicate 10 (replicate 10 (255, 255, 255, 255))\<rparr>"

section \<open>The pixels a line visits\<close>

text \<open>
  The two loops of \<^verbatim>\<open>Image.line\<close> without the plotting: the coordinates they pass to
  \<^verbatim>\<open>set_pixel\<close>, in iteration order, when no call raises.
\<close>

fun points_x :: "int \<Rightarrow> int \<Rightarrow> int \<Rightarrow> int \<Rightarrow> nat \<Rightarrow> int \<Rightarrow> int \<Rightarrow> int \<Rightarrow> (int \<times> int) list" where
  "points_x dx dy sx_step sy_step 0 x y deviation = []"
| "points_x dx dy sx_step sy_step (Suc n) x y deviation =
     (x, y) #
     (let x' = x + sx_step; deviation' = deviation - dy
      in if deviation' < 0
         then points_x dx dy sx_step sy_step n x' (y + sy_step) (deviation' + dx)
         else points_x dx dy sx_step sy_step n x' y deviation')"

fun points_y :: "int \<Rightarrow> int \<Rightarrow> int \<Rightarrow> int \<Rightarrow> nat \<Rightarrow> int \<Rightarrow> int \<Rightarrow> int \<Rightarrow> (int \<times> int) list" where
  "points_y dx dy sx_step sy_step 0 x y deviation = []"
| "points_y dx dy sx_step sy_step (Suc n) x y deviation =
     (x, y) #
     (let y' = y + sy_step; deviation' = deviation - dx
      in if deviation' < 0
         then points_y dx dy sx_step sy_step n (x + sx_step) y' (deviation' + dy)
         else points_y dx dy sx_step sy_step n x y' deviation')"

definition line_points :: "int \<Rightarrow> int \<Rightarrow> int \<Rightarrow> int \<Rightarrow> (int \<times> int) list" where
  "line_points sx sy ex ey =
     (let dx = \<bar>sx - ex\<bar>;
          dy = \<bar>sy - ey\<bar>;
          sx_step = (if sx < ex then 1 else - 1);
          sy_step = (if sy < ey then 1 else - 1)
      in if dx > dy
         then points_x dx dy sx_step sy_step (nat (dx + 1)) sx sy (dx div 2)
         else points_y dx dy sx_step sy_step (nat (dy + 1)) sx sy (dy div 2))"

text \<open>Plotting a list of points in order, with the \<^verbatim>\<open>try\<close> of the loops.\<close>

fun plot_all :: "image \<Rightarrow> pixel \<Rightarrow> (int \<times> int) list \<Rightarrow> error option \<times> image" where
  "plot_all img c [] = (None, img)"
| "plot_all img c (p # ps) =
     (case set_pixel img (fst p) (snd p) (tuple_arg c) of
        (Some e, img') \<Rightarrow>
          (if is_IndexError e then (Some (IndexError (pixel_msg (fst p) (snd p))), img')
           else (Some e, img'))
      | (None, img') \<Rightarrow> plot_all img' c ps)"

text \<open>The index of the first point of a list that does not index the buffer.\<close>

definition first_outside :: "image \<Rightarrow> (int \<times> int) list \<Rightarrow> nat" where
  "first_outside img ps = length (takeWhile (inside img) ps)"

text \<open>
  The number of minor-axis steps taken after \<open>k\<close> iterations of a loop that started with
  deviation \<open>e\<close>, and the whole pixel sequence of a loop in closed form: \<open>major + 1\<close>
  points, the major coordinate moving by \<open>smaj\<close> each time.
\<close>

definition minor_off :: "int \<Rightarrow> int \<Rightarrow> int \<Rightarrow> int \<Rightarrow> int" where
  "minor_off major minor e k = (k * minor - e + major - 1) div major"

definition bres :: "int \<Rightarrow> int \<Rightarrow> int \<Rightarrow> int \<Rightarrow> int \<Rightarrow> int \<Rightarrow> (int \<times> int) list" where
  "bres major minor smaj smin a b =
     map (\<lambda>k. (a + smaj * int k, b + smin * minor_off major minor (major div 2) (int k)))
       [0..<nat (major + 1)]"

text \<open>
  No iteration leaves the loop exactly half-way between two pixels of the minor axis.
\<close>

definition tie_free :: "int \<Rightarrow> int \<Rightarrow> bool" where
  "tie_free major minor \<longleftrightarrow> (\<forall>k \<in> set [1..major]. 2 * ((k * minor) mod major) \<noteq> major)"

text \<open>Two pixels that touch by a side or a corner.\<close>

definition adjacent :: "int \<times> int \<Rightarrow> int \<times> int \<Rightarrow> bool" where
  "adjacent p q \<longleftrightarrow> max \<bar>fst p - fst q\<bar> \<bar>snd p - snd q\<bar> = 1"

section \<open>The printed messages\<close>

text \<open>
  \<open>str_int\<close> prints decimal digits with a leading minus sign for a negative number, so
  the text reads back to the number, and each of the two messages determines every
  number printed in it.
\<close>

lemma digit_cases:
  "d < (10::nat) \<Longrightarrow>
   d = 0 \<or> d = 1 \<or> d = 2 \<or> d = 3 \<or> d = 4 \<or> d = 5 \<or> d = 6 \<or> d = 7 \<or> d = 8 \<or> d = 9"
  by arith

lemma digit_val_char: "d < 10 \<Longrightarrow> digit_val (digit_char d) = d"
  by (drule digit_cases) (auto simp: digit_char_def digit_val_def)

lemma digit_char_in: "d < 10 \<Longrightarrow> digit_char d \<in> set ''0123456789''"
  unfolding digit_char_def by (rule nth_mem) simp

lemma read_str_nat: "read_nat (str_nat n) = n"
proof (induction n rule: str_nat.induct)
  case (1 n)
  show ?case
  proof (cases "n < 10")
    case True
    then show ?thesis
      by (subst str_nat.simps) (simp add: read_nat_def digit_val_char)
  next
    case False
    then have "read_nat (str_nat (n div 10)) = n div 10" by (rule 1)
    moreover have "n mod 10 < 10" by simp
    ultimately show ?thesis
      using False by (subst str_nat.simps) (simp add: read_nat_def digit_val_char)
  qed
qed

lemma str_nat_chars: "set (str_nat n) \<subseteq> set ''0123456789''"
proof (induction n rule: str_nat.induct)
  case (1 n)
  show ?case
  proof (cases "n < 10")
    case True
    with digit_char_in [of n] show ?thesis
      by (subst str_nat.simps) simp
  next
    case False
    then have "set (str_nat (n div 10)) \<subseteq> set ''0123456789''" by (rule 1)
    moreover have "digit_char (n mod 10) \<in> set ''0123456789''"
      by (rule digit_char_in) simp
    ultimately show ?thesis
      using False by (subst str_nat.simps) simp
  qed
qed

lemma str_nat_nonempty: "str_nat n \<noteq> []"
  by (subst str_nat.simps) simp

lemma read_str_int: "read_int (str_int i) = i"
proof (cases "i < 0")
  case True
  then show ?thesis by (simp add: str_int_def read_int_def read_str_nat)
next
  case False
  obtain c cs where s: "str_nat (nat i) = c # cs"
    using str_nat_nonempty [of "nat i"] by (cases "str_nat (nat i)") auto
  then have "c \<in> set ''0123456789''"
    using str_nat_chars [of "nat i"] by auto
  then have "c \<noteq> CHR ''-''" by auto
  with False s read_str_nat [of "nat i"] show ?thesis
    by (simp add: str_int_def read_int_def)
qed

lemma str_int_inj: "str_int i = str_int j \<longleftrightarrow> i = j"
  by (metis read_str_int)

lemma str_int_chars: "set (str_int i) \<subseteq> set ''-0123456789''"
proof -
  have sub: "set ''0123456789'' \<subseteq> set ''-0123456789''"
    by (rule set_subset_Cons)
  show ?thesis
  proof (cases "i < 0")
    case True
    have "set (str_nat (nat (- i))) \<subseteq> set ''-0123456789''"
      using str_nat_chars sub by (rule subset_trans)
    moreover have "CHR ''-'' \<in> set ''-0123456789''"
      by (rule list.set_intros(1))
    ultimately show ?thesis
      using True by (simp only: str_int_def if_True list.set insert_subset simp_thms)
  next
    case False
    have "set (str_nat (nat i)) \<subseteq> set ''-0123456789''"
      using str_nat_chars sub by (rule subset_trans)
    then show ?thesis
      using False by (simp only: str_int_def if_False)
  qed
qed

lemma split_first:
  assumes "c \<notin> set xs" "c \<notin> set xs'" "xs @ c # ys = xs' @ c # ys'"
  shows "xs = xs' \<and> ys = ys'"
  using assms
proof (induction xs arbitrary: xs')
  case Nil
  then show ?case by (cases xs') auto
next
  case (Cons a xs)
  then show ?case by (cases xs') auto
qed

lemma str_int_sep:
  assumes "c \<notin> set ''-0123456789''"
  shows "str_int i @ c # ys = str_int j @ c # ys' \<longleftrightarrow> i = j \<and> ys = ys'"
proof
  assume eq: "str_int i @ c # ys = str_int j @ c # ys'"
  have "c \<notin> set (str_int i)" "c \<notin> set (str_int j)"
    using assms str_int_chars by blast+
  from split_first [OF this eq] show "i = j \<and> ys = ys'"
    by (simp add: str_int_inj)
qed simp

lemma bounds_msg_inj:
  "bounds_msg x w y h = bounds_msg x' w' y' h' \<longleftrightarrow> x = x' \<and> w = w' \<and> y = y' \<and> h = h'"
  by (simp add: bounds_msg_def str_int_sep str_int_inj)

lemma pixel_msg_inj: "pixel_msg x y = pixel_msg x' y' \<longleftrightarrow> x = x' \<and> y = y'"
  by (simp add: pixel_msg_def str_int_sep str_int_inj)

section \<open>The bounds check\<close>

text \<open>
  Claim C3. The bounds check of \<^verbatim>\<open>get_pixel\<close> and \<^verbatim>\<open>set_pixel\<close> accepts
  \<open>(x, y)\<close> exactly when \<open>0 \<le> x \<le> width\<close> and \<open>0 \<le> y \<le> height\<close>, both upper bounds
  inclusive. When it rejects, both operations raise the \<^verbatim>\<open>IndexError\<close> whose
  message prints the coordinate and the width and height of the image, and the image is
  left as it was. A coordinate on the upper bound passes the check and is one past the
  last index of the buffer: on a well-formed image the read then stops inside NumPy.
  The message is the text of the f-string with the four numbers in decimal, each of
  which reads back from its text, and no other coordinate or size gives the same message.
\<close>

theorem check_bounds_inclusive:
  "(check_bounds img x y = None \<longleftrightarrow> 0 \<le> x \<and> x \<le> width img \<and> 0 \<le> y \<and> y \<le> height img)
   \<and> (check_bounds img x y \<noteq> None \<longrightarrow>
        get_pixel img x y = Inl (IndexError (bounds_msg x (width img) y (height img)))
        \<and> set_pixel img x y v
            = (Some (IndexError (bounds_msg x (width img) y (height img))), img))
   \<and> (wf_image img \<longrightarrow>
        check_bounds img (width img) (height img) = None
        \<and> get_pixel img (width img) (height img) = Inl Numpy_IndexError)
   \<and> bounds_msg x (width img) y (height img)
       = ''X or Y values out of range x='' @ str_int x @ '' self.width='' @ str_int (width img)
           @ '' y='' @ str_int y @ '' self.height='' @ str_int (height img)
   \<and> map read_int [str_int x, str_int (width img), str_int y, str_int (height img)]
       = [x, width img, y, height img]
   \<and> (\<forall>x' w' y' h'.
          bounds_msg x' w' y' h' = bounds_msg x (width img) y (height img)
          \<longleftrightarrow> x' = x \<and> w' = width img \<and> y' = y \<and> h' = height img)"
proof -
  have check: "check_bounds img x y = None
               \<longleftrightarrow> 0 \<le> x \<and> x \<le> width img \<and> 0 \<le> y \<and> y \<le> height img"
    by (simp add: check_bounds_def)
  have raise: "check_bounds img x y \<noteq> None \<longrightarrow>
        get_pixel img x y = Inl (IndexError (bounds_msg x (width img) y (height img)))
        \<and> set_pixel img x y v
            = (Some (IndexError (bounds_msg x (width img) y (height img))), img)"
    by (simp add: check_bounds_def get_pixel_def set_pixel_def)
  have edge: "wf_image img \<longrightarrow>
        check_bounds img (width img) (height img) = None
        \<and> get_pixel img (width img) (height img) = Inl Numpy_IndexError"
    by (simp add: check_bounds_def get_pixel_def wf_image_def np_getitem_def np_index_def)
  have msg: "bounds_msg x (width img) y (height img)
       = ''X or Y values out of range x='' @ str_int x @ '' self.width='' @ str_int (width img)
           @ '' y='' @ str_int y @ '' self.height='' @ str_int (height img)"
    by (simp only: bounds_msg_def)
  have reads: "map read_int [str_int x, str_int (width img), str_int y, str_int (height img)]
       = [x, width img, y, height img]"
    by (simp only: list.map read_str_int)
  have unique: "\<forall>x' w' y' h'.
          bounds_msg x' w' y' h' = bounds_msg x (width img) y (height img)
          \<longleftrightarrow> x' = x \<and> w' = width img \<and> y' = y \<and> h' = height img"
    by (simp only: bounds_msg_inj simp_thms)
  from check raise edge msg reads unique show ?thesis by (intro conjI)
qed

theorem check_bounds_inclusive_witness:
  "check_bounds \<lparr>width = 10, height = 10,
       rgba_data = replicate 10 (replicate 10 (255, 0, 0, 255))\<rparr> 200 300 \<noteq> None
   \<and> get_pixel \<lparr>width = 10, height = 10,
       rgba_data = replicate 10 (replicate 10 (255, 0, 0, 255))\<rparr> 200 300
     = Inl (IndexError ''X or Y values out of range x=200 self.width=10 y=300 self.height=10'')
   \<and> wf_image \<lparr>width = 10, height = 10,
       rgba_data = replicate 10 (replicate 10 (255, 0, 0, 255))\<rparr>
   \<and> get_pixel \<lparr>width = 10, height = 10,
       rgba_data = replicate 10 (replicate 10 (255, 0, 0, 255))\<rparr> 10 10
     = Inl Numpy_IndexError"
proof -
  let ?I = "\<lparr>width = 10, height = 10,
       rgba_data = replicate 10 (replicate 10 (255, 0, 0, 255))\<rparr>"
  note t = check_bounds_inclusive [of ?I 200 300]
  have out: "check_bounds ?I 200 300 \<noteq> None" by (simp add: check_bounds_def)
  have wf: "wf_image ?I" by (simp add: wf_image_def)
  from t out have "get_pixel ?I 200 300
      = Inl (IndexError (bounds_msg 200 (width ?I) 300 (height ?I)))"
    by blast
  moreover from t have "bounds_msg 200 (width ?I) 300 (height ?I)
      = ''X or Y values out of range x='' @ str_int 200 @ '' self.width='' @ str_int (width ?I)
           @ '' y='' @ str_int 300 @ '' self.height='' @ str_int (height ?I)"
    by blast
  moreover have "str_int 200 = ''200''" "str_int 300 = ''300''" "str_int 10 = ''10''"
    by (simp_all add: str_int_def str_nat.simps digit_char_def)
  ultimately have g: "get_pixel ?I 200 300
      = Inl (IndexError ''X or Y values out of range x=200 self.width=10 y=300 self.height=10'')"
    by simp
  from t wf have e: "get_pixel ?I (width ?I) (height ?I) = Inl Numpy_IndexError"
    by blast
  from out g wf e show ?thesis by simp
qed

section \<open>Writing pixels\<close>

text \<open>
  What \<^verbatim>\<open>set_pixel\<close> and \<^verbatim>\<open>get_pixel\<close> do on a well-formed image, inside and
  outside the buffer, and what a sequence of writes leaves behind.
\<close>

lemma uint8_px_ok: "pixel_ok c \<Longrightarrow> uint8_px c = c"
  by (cases c) (simp add: channel_ok_def uint8_def)

lemma validate_tuple_arg: "validate_rgba (tuple_arg c) = Inr c"
  by (cases c) simp

lemma set_pixel_inside:
  assumes "wf_image img" "inside img p"
  shows "set_pixel img (fst p) (snd p) (tuple_arg c) = (None, write_px c p img)"
proof -
  from assms have y: "np_index (length (rgba_data img)) (snd p) = Some (nat (snd p))"
    by (simp add: wf_image_def inside_def np_index_def)
  from assms have "rgba_data img ! nat (snd p) \<in> set (rgba_data img)"
    by (simp add: wf_image_def inside_def)
  with assms have "length (rgba_data img ! nat (snd p)) = nat (width img)"
    by (simp add: wf_image_def)
  with assms have x: "np_index (length (rgba_data img ! nat (snd p))) (fst p) = Some (nat (fst p))"
    by (simp add: inside_def np_index_def)
  from assms have "check_bounds img (fst p) (snd p) = None"
    by (simp add: check_bounds_def inside_def)
  with x y show ?thesis
    by (simp add: set_pixel_def validate_tuple_arg np_setitem_def write_px_def)
qed

lemma set_pixel_outside:
  assumes "wf_image img" "\<not> inside img p"
  shows "\<exists>e. is_IndexError e \<and> set_pixel img (fst p) (snd p) (tuple_arg c) = (Some e, img)"
proof (cases "check_bounds img (fst p) (snd p)")
  case (Some e)
  then have "is_IndexError e" by (auto simp: check_bounds_def split: if_splits)
  with Some show ?thesis by (simp add: set_pixel_def)
next
  case None
  then have b: "0 \<le> fst p" "fst p \<le> width img" "0 \<le> snd p" "snd p \<le> height img"
    by (auto simp: check_bounds_def split: if_splits)
  show ?thesis
  proof (cases "snd p = height img")
    case True
    with assms have "np_index (length (rgba_data img)) (snd p) = None"
      by (simp add: wf_image_def np_index_def)
    with None show ?thesis
      by (simp add: set_pixel_def validate_tuple_arg np_setitem_def)
  next
    case False
    with b assms have xw: "fst p = width img" and yh: "snd p < height img"
      by (auto simp: inside_def)
    from yh b assms have y: "np_index (length (rgba_data img)) (snd p) = Some (nat (snd p))"
      by (simp add: wf_image_def np_index_def)
    from yh b assms have "rgba_data img ! nat (snd p) \<in> set (rgba_data img)"
      by (simp add: wf_image_def)
    with assms have "length (rgba_data img ! nat (snd p)) = nat (width img)"
      by (simp add: wf_image_def)
    with xw assms have "np_index (length (rgba_data img ! nat (snd p))) (fst p) = None"
      by (simp add: wf_image_def np_index_def)
    with y None show ?thesis
      by (simp add: set_pixel_def validate_tuple_arg np_setitem_def)
  qed
qed

lemma write_px_size [simp]:
  "width (write_px v p img) = width img" "height (write_px v p img) = height img"
  by (simp_all add: write_px_def)

lemma inside_write_px [simp]: "inside (write_px v p img) q = inside img q"
  by (simp add: inside_def)

lemma rows_update_length:
  assumes "\<forall>row \<in> set d. length row = w"
  shows "\<forall>row \<in> set (d[j := (d ! j)[i := u]]). length row = w"
proof
  fix row
  assume "row \<in> set (d[j := (d ! j)[i := u]])"
  then obtain k where k: "k < length d" "row = d[j := (d ! j)[i := u]] ! k"
    by (auto simp: set_conv_nth)
  with assms have "length (d ! k) = w" by simp
  with k show "length row = w" by (cases "k = j") simp_all
qed

lemma wf_write_px: "wf_image img \<Longrightarrow> wf_image (write_px v p img)"
  unfolding wf_image_def write_px_def
  using rows_update_length [of "rgba_data img" "nat (width img)"] by simp

lemma get_pixel_inside:
  assumes "wf_image img" "inside img q"
  shows "get_pixel img (fst q) (snd q) = Inr (rgba_data img ! nat (snd q) ! nat (fst q))"
proof -
  from assms have y: "np_index (length (rgba_data img)) (snd q) = Some (nat (snd q))"
    by (simp add: wf_image_def inside_def np_index_def)
  from assms have "rgba_data img ! nat (snd q) \<in> set (rgba_data img)"
    by (simp add: wf_image_def inside_def)
  with assms have "length (rgba_data img ! nat (snd q)) = nat (width img)"
    by (simp add: wf_image_def)
  with assms have x: "np_index (length (rgba_data img ! nat (snd q))) (fst q) = Some (nat (fst q))"
    by (simp add: inside_def np_index_def)
  from assms have "check_bounds img (fst q) (snd q) = None"
    by (simp add: check_bounds_def inside_def)
  with x y show ?thesis
    by (simp add: get_pixel_def np_getitem_def)
qed

lemma get_pixel_write_px:
  assumes "wf_image img" "inside img p" "inside img q"
  shows "get_pixel (write_px v p img) (fst q) (snd q)
         = (if q = p then Inr (uint8_px v) else get_pixel img (fst q) (snd q))"
proof -
  from assms have rows: "nat (snd p) < length (rgba_data img)" "nat (snd q) < length (rgba_data img)"
    by (simp_all add: wf_image_def inside_def)
  then have "rgba_data img ! nat (snd p) \<in> set (rgba_data img)" by simp
  with assms have cols: "nat (fst p) < length (rgba_data img ! nat (snd p))"
    by (simp add: wf_image_def inside_def)
  have g1: "get_pixel (write_px v p img) (fst q) (snd q)
        = Inr (rgba_data (write_px v p img) ! nat (snd q) ! nat (fst q))"
    using assms by (intro get_pixel_inside wf_write_px) simp_all
  have g2: "get_pixel img (fst q) (snd q) = Inr (rgba_data img ! nat (snd q) ! nat (fst q))"
    using assms by (intro get_pixel_inside)
  have neq: "q \<noteq> p \<Longrightarrow> nat (snd q) \<noteq> nat (snd p) \<or> nat (fst q) \<noteq> nat (fst p)"
    using assms by (auto simp: inside_def prod_eq_iff)
  show ?thesis
    unfolding g1 g2 using rows cols neq
    by (auto simp: write_px_def nth_list_update)
qed

lemma fold_write_size [simp]:
  "width (fold (write_px c) ps img) = width img"
  "height (fold (write_px c) ps img) = height img"
  by (induction ps arbitrary: img) simp_all

lemma inside_fold_write [simp]: "inside (fold (write_px c) ps img) q = inside img q"
  by (simp add: inside_def)

lemma wf_fold_write: "wf_image img \<Longrightarrow> wf_image (fold (write_px c) ps img)"
  by (induction ps arbitrary: img) (simp_all add: wf_write_px)

lemma get_pixel_fold_write:
  "wf_image img \<Longrightarrow> \<forall>p \<in> set ps. inside img p \<Longrightarrow> inside img q \<Longrightarrow>
   get_pixel (fold (write_px c) ps img) (fst q) (snd q)
   = (if q \<in> set ps then Inr (uint8_px c) else get_pixel img (fst q) (snd q))"
proof (induction ps arbitrary: img)
  case Nil
  then show ?case by simp
next
  case (Cons p ps)
  have "get_pixel (fold (write_px c) ps (write_px c p img)) (fst q) (snd q)
        = (if q \<in> set ps then Inr (uint8_px c)
           else get_pixel (write_px c p img) (fst q) (snd q))"
    using Cons.prems by (intro Cons.IH) (simp_all add: wf_write_px)
  with Cons.prems show ?case by (simp add: get_pixel_write_px)
qed

lemma fold_write_data:
  "fold (write_px c) ps img = img\<lparr>rgba_data := rgba_data (fold (write_px c) ps img)\<rparr>"
proof (induction ps arbitrary: img)
  case Nil
  show ?case by simp
next
  case (Cons p ps)
  have "fold (write_px c) (p # ps) img = fold (write_px c) ps (write_px c p img)" by simp
  also have "\<dots> = (write_px c p img)\<lparr>rgba_data := rgba_data (fold (write_px c) ps (write_px c p img))\<rparr>"
    by (rule Cons.IH)
  also have "\<dots> = img\<lparr>rgba_data := rgba_data (fold (write_px c) ps (write_px c p img))\<rparr>"
    by (simp add: write_px_def)
  finally show ?case by simp
qed

lemma data_ext:
  assumes "wf_image a" "wf_image b" "width a = width b" "height a = height b"
    and "\<forall>q. inside a q \<longrightarrow> get_pixel a (fst q) (snd q) = get_pixel b (fst q) (snd q)"
  shows "rgba_data a = rgba_data b"
proof (rule nth_equalityI)
  show len: "length (rgba_data a) = length (rgba_data b)"
    using assms(1-4) by (simp add: wf_image_def)
  fix j
  assume j: "j < length (rgba_data a)"
  with len have ra: "rgba_data a ! j \<in> set (rgba_data a)" and rb: "rgba_data b ! j \<in> set (rgba_data b)"
    by simp_all
  with assms(1,2) have la: "length (rgba_data a ! j) = nat (width a)"
    and lb: "length (rgba_data b ! j) = nat (width b)"
    by (simp_all add: wf_image_def)
  show "rgba_data a ! j = rgba_data b ! j"
  proof (rule nth_equalityI)
    show "length (rgba_data a ! j) = length (rgba_data b ! j)"
      using la lb assms(3) by simp
    fix i
    assume i: "i < length (rgba_data a ! j)"
    have ia: "inside a (int i, int j)"
      using i j la assms(1) by (auto simp: inside_def wf_image_def)
    then have ib: "inside b (int i, int j)"
      using assms(3,4) by (simp add: inside_def)
    from assms(5) ia have "get_pixel a (int i) (int j) = get_pixel b (int i) (int j)"
      by fastforce
    with get_pixel_inside [OF assms(1) ia] get_pixel_inside [OF assms(2) ib]
    show "rgba_data a ! j ! i = rgba_data b ! j ! i" by simp
  qed
qed

lemma fold_write_rev:
  assumes "wf_image img" and "\<forall>p \<in> set ps. inside img p"
  shows "fold (write_px c) (rev ps) img = fold (write_px c) ps img"
proof -
  let ?a = "fold (write_px c) (rev ps) img" and ?b = "fold (write_px c) ps img"
  have r: "\<forall>p \<in> set (rev ps). inside img p" using assms(2) by simp
  have "rgba_data ?a = rgba_data ?b"
  proof (rule data_ext)
    show "wf_image ?a" "wf_image ?b" using assms(1) by (simp_all add: wf_fold_write)
    show "width ?a = width ?b" "height ?a = height ?b" by simp_all
    show "\<forall>q. inside ?a q \<longrightarrow> get_pixel ?a (fst q) (snd q) = get_pixel ?b (fst q) (snd q)"
      using get_pixel_fold_write [OF assms(1) r, of _ c] get_pixel_fold_write [OF assms(1,2), of _ c]
      by simp
  qed
  then show ?thesis
    using fold_write_data [of c "rev ps" img] fold_write_data [of c ps img] by simp
qed

section \<open>The line loops in closed form\<close>

text \<open>
  The deviation stays in \<open>0..<major\<close>, so the number of minor steps after \<open>k\<close> iterations
  is a quotient, and the pixels of a loop are given by a formula.
\<close>

lemma minor_off_0: "0 \<le> e \<Longrightarrow> e < major \<Longrightarrow> minor_off major minor e 0 = 0"
  by (simp add: minor_off_def)

lemma minor_off_step_keep:
  "minor_off major minor (e - minor) k = minor_off major minor e (k + 1)"
  by (simp add: minor_off_def algebra_simps)

lemma minor_off_step_wrap:
  assumes "0 < major"
  shows "1 + minor_off major minor (e - minor + major) k = minor_off major minor e (k + 1)"
proof -
  have "(k * minor - (e - minor + major) + major - 1) + 1 * major = (k + 1) * minor - e + major - 1"
    by (simp add: algebra_simps)
  then have "((k + 1) * minor - e + major - 1) div major
             = (k * minor - (e - minor + major) + major - 1) div major + 1"
    using assms by (metis div_add_self2 less_irrefl mult_1)
  then show ?thesis by (simp add: minor_off_def)
qed

lemma map_upt_Suc_shift: "map f [0..<Suc n] = f 0 # map (\<lambda>k. f (Suc k)) [0..<n]"
  by (simp add: upt_conv_Cons map_Suc_upt [symmetric] del: upt_Suc)

lemma points_x_closed:
  assumes "0 < dx" "0 \<le> dy" "dy \<le> dx"
  shows "0 \<le> e \<Longrightarrow> e < dx \<Longrightarrow>
         points_x dx dy sxs sys n x y e
         = map (\<lambda>k. (x + sxs * int k, y + sys * minor_off dx dy e (int k))) [0..<n]"
proof (induction n arbitrary: x y e)
  case 0
  then show ?case by simp
next
  case (Suc n)
  show ?case
  proof (cases "e - dy < 0")
    case True
    with assms Suc.prems have e': "0 \<le> e - dy + dx" "e - dy + dx < dx" by simp_all
    have "points_x dx dy sxs sys (Suc n) x y e
          = (x, y) # points_x dx dy sxs sys n (x + sxs) (y + sys) (e - dy + dx)"
      using True by simp
    also have "points_x dx dy sxs sys n (x + sxs) (y + sys) (e - dy + dx)
          = map (\<lambda>k. (x + sxs + sxs * int k, y + sys + sys * minor_off dx dy (e - dy + dx) (int k))) [0..<n]"
      using e' by (rule Suc.IH)
    also have "\<dots> = map (\<lambda>k. (x + sxs * int (Suc k), y + sys * minor_off dx dy e (int (Suc k)))) [0..<n]"
    proof (rule map_cong [OF refl])
      fix k
      have "sys + sys * minor_off dx dy (e - dy + dx) (int k)
            = sys * (1 + minor_off dx dy (e - dy + dx) (int k))"
        by (simp add: algebra_simps)
      also have "\<dots> = sys * minor_off dx dy e (int k + 1)"
        using minor_off_step_wrap [OF assms(1)] by simp
      finally show "(x + sxs + sxs * int k, y + sys + sys * minor_off dx dy (e - dy + dx) (int k))
            = (x + sxs * int (Suc k), y + sys * minor_off dx dy e (int (Suc k)))"
        by (simp add: algebra_simps)
    qed
    finally show ?thesis
      using Suc.prems by (simp add: map_upt_Suc_shift minor_off_0 del: upt_Suc points_x.simps)
  next
    case False
    with assms Suc.prems have e': "0 \<le> e - dy" "e - dy < dx" by simp_all
    have "points_x dx dy sxs sys (Suc n) x y e
          = (x, y) # points_x dx dy sxs sys n (x + sxs) y (e - dy)"
      using False by simp
    also have "points_x dx dy sxs sys n (x + sxs) y (e - dy)
          = map (\<lambda>k. (x + sxs + sxs * int k, y + sys * minor_off dx dy (e - dy) (int k))) [0..<n]"
      using e' by (rule Suc.IH)
    also have "\<dots> = map (\<lambda>k. (x + sxs * int (Suc k), y + sys * minor_off dx dy e (int (Suc k)))) [0..<n]"
      by (rule map_cong [OF refl]) (simp add: minor_off_step_keep algebra_simps)
    finally show ?thesis
      using Suc.prems by (simp add: map_upt_Suc_shift minor_off_0 del: upt_Suc points_x.simps)
  qed
qed

lemma points_y_swap:
  "points_y dx dy sxs sys n x y e = map prod.swap (points_x dy dx sys sxs n y x e)"
  by (induction n arbitrary: x y e) (simp_all add: Let_def)

lemma half_bounds: "0 < major \<Longrightarrow> 0 \<le> major div 2 \<and> major div 2 < (major::int)"
  by simp

lemma minor_off_end:
  assumes "0 < major"
  shows "minor_off major minor (major div 2) major = minor"
proof -
  have "major * minor - major div 2 + major - 1 = major * minor + (major - 1 - major div 2)"
    by simp
  moreover have "0 \<le> major - 1 - major div 2" "major - 1 - major div 2 < major"
    using assms by simp_all
  ultimately have "(major * minor - major div 2 + major - 1) div major = minor"
    by (rule int_div_pos_eq)
  then show ?thesis by (simp add: minor_off_def)
qed

lemma minor_off_Suc:
  assumes "0 < major" "0 \<le> minor" "minor \<le> major"
  shows "minor_off major minor e k \<le> minor_off major minor e (k + 1)
         \<and> minor_off major minor e (k + 1) \<le> minor_off major minor e k + 1"
proof -
  let ?A = "k * minor - e + major - 1"
  have eq: "(k + 1) * minor - e + major - 1 = ?A + minor" by (simp add: algebra_simps)
  have "?A div major \<le> (?A + minor) div major"
    using assms by (intro zdiv_mono1) simp_all
  moreover have "(?A + minor) div major \<le> (?A + major) div major"
    using assms by (intro zdiv_mono1) simp_all
  moreover have "(?A + major) div major = ?A div major + 1"
    using assms by (metis div_add_self2 less_irrefl)
  ultimately show ?thesis by (simp add: minor_off_def eq)
qed

lemma minor_off_split:
  assumes "0 < major" "0 \<le> e" "e < major"
  shows "minor_off major minor e k
         = (k * minor) div major + (if e < (k * minor) mod major then 1 else 0)"
proof -
  let ?q = "(k * minor) div major" and ?r = "(k * minor) mod major"
  have r: "0 \<le> ?r" "?r < major" using assms by simp_all
  have P: "k * minor = major * ?q + ?r" by simp
  show ?thesis
  proof (cases "e < ?r")
    case True
    have "k * minor - e + major - 1 = major * (?q + 1) + (?r - e - 1)"
      using P by (simp add: algebra_simps)
    moreover have "0 \<le> ?r - e - 1" "?r - e - 1 < major" using True r assms by linarith+
    ultimately have "(k * minor - e + major - 1) div major = ?q + 1"
      by (rule int_div_pos_eq)
    with True show ?thesis by (simp add: minor_off_def)
  next
    case False
    have "k * minor - e + major - 1 = major * ?q + (?r - e + major - 1)"
      using P by (simp add: algebra_simps)
    moreover have "0 \<le> ?r - e + major - 1" "?r - e + major - 1 < major"
      using False r assms by linarith+
    ultimately have "(k * minor - e + major - 1) div major = ?q"
      by (rule int_div_pos_eq)
    with False show ?thesis by (simp add: minor_off_def)
  qed
qed

lemma minor_off_mirror:
  assumes "0 < major" "0 \<le> e" "e < major"
  shows "minor_off major minor e (major - k)
         = minor - (k * minor) div major - (if major \<le> (k * minor) mod major + e then 1 else 0)"
proof -
  let ?q = "(k * minor) div major" and ?r = "(k * minor) mod major"
  have r: "0 \<le> ?r" "?r < major" using assms by simp_all
  have P: "k * minor = major * ?q + ?r" by simp
  have Q: "(major - k) * minor = major * minor - (major * ?q + ?r)"
    using P by (simp add: algebra_simps)
  show ?thesis
  proof (cases "major \<le> ?r + e")
    case True
    have "(major - k) * minor - e + major - 1 = major * (minor - ?q - 1) + (2 * major - 1 - ?r - e)"
      unfolding Q by (simp add: algebra_simps)
    moreover have "0 \<le> 2 * major - 1 - ?r - e" "2 * major - 1 - ?r - e < major"
      using True r assms by linarith+
    ultimately have "((major - k) * minor - e + major - 1) div major = minor - ?q - 1"
      by (rule int_div_pos_eq)
    with True show ?thesis by (simp add: minor_off_def)
  next
    case False
    have "(major - k) * minor - e + major - 1 = major * (minor - ?q) + (major - 1 - ?r - e)"
      unfolding Q by (simp add: algebra_simps)
    moreover have "0 \<le> major - 1 - ?r - e" "major - 1 - ?r - e < major"
      using False r assms by linarith+
    ultimately have "((major - k) * minor - e + major - 1) div major = minor - ?q"
      by (rule int_div_pos_eq)
    with False show ?thesis by (simp add: minor_off_def)
  qed
qed

text \<open>Sum of the offsets seen from both ends.\<close>

lemma half_tie:
  fixes r major :: int
  shows "2 * r = major \<Longrightarrow> \<not> major div 2 < r \<and> major \<le> r + major div 2"
    and "2 * r \<noteq> major \<Longrightarrow> (major div 2 < r) = (major \<le> r + major div 2)"
  by presburger+

lemma minor_off_sum:
  assumes "0 < major"
  shows "minor_off major minor (major div 2) k + minor_off major minor (major div 2) (major - k)
         = (if 2 * ((k * minor) mod major) = major then minor - 1 else minor)"
proof -
  have h: "0 \<le> major div 2" "major div 2 < major" using assms by simp_all
  note a = minor_off_split [OF assms h, of minor k] and b = minor_off_mirror [OF assms h, of minor k]
  show ?thesis
  proof (cases "2 * ((k * minor) mod major) = major")
    case True
    with half_tie(1) [of "(k * minor) mod major" major] a b show ?thesis by simp
  next
    case False
    with half_tie(2) [of "(k * minor) mod major" major] a b show ?thesis by simp
  qed
qed

lemma minor_off_flat:
  assumes "0 < major"
  shows "minor_off major 0 (major div 2) k = 0"
proof -
  have h: "0 \<le> major div 2" "major div 2 < major" using assms by simp_all
  show ?thesis using minor_off_split [OF assms h, of 0 k] h by simp
qed

lemma line_points_x_major:
  assumes "\<bar>sy - ey\<bar> < \<bar>sx - ex\<bar>"
  shows "line_points sx sy ex ey
         = bres \<bar>sx - ex\<bar> \<bar>sy - ey\<bar> (if sx < ex then 1 else - 1) (if sy < ey then 1 else - 1) sx sy"
proof -
  have "0 < \<bar>sx - ex\<bar>" "0 \<le> \<bar>sy - ey\<bar>" "\<bar>sy - ey\<bar> \<le> \<bar>sx - ex\<bar>"
    "0 \<le> \<bar>sx - ex\<bar> div 2" "\<bar>sx - ex\<bar> div 2 < \<bar>sx - ex\<bar>"
    using assms by linarith+
  from points_x_closed [OF this] assms show ?thesis
    by (simp add: line_points_def bres_def Let_def)
qed

lemma line_points_y_major:
  assumes "\<bar>sx - ex\<bar> \<le> \<bar>sy - ey\<bar>" "0 < \<bar>sy - ey\<bar>"
  shows "line_points sx sy ex ey
         = map prod.swap
             (bres \<bar>sy - ey\<bar> \<bar>sx - ex\<bar> (if sy < ey then 1 else - 1) (if sx < ex then 1 else - 1) sy sx)"
proof -
  have "0 < \<bar>sy - ey\<bar>" "0 \<le> \<bar>sx - ex\<bar>" "\<bar>sx - ex\<bar> \<le> \<bar>sy - ey\<bar>"
    "0 \<le> \<bar>sy - ey\<bar> div 2" "\<bar>sy - ey\<bar> div 2 < \<bar>sy - ey\<bar>"
    using assms by linarith+
  from points_x_closed [OF this] assms show ?thesis
    by (simp add: line_points_def bres_def Let_def points_y_swap)
qed

lemma line_points_dot: "line_points sx sy sx sy = [(sx, sy)]"
  by (simp add: line_points_def)

lemma bres_length: "length (bres major minor smaj smin a b) = nat (major + 1)"
  by (simp add: bres_def)

lemma bres_nth:
  "k < nat (major + 1) \<Longrightarrow>
   bres major minor smaj smin a b ! k
   = (a + smaj * int k, b + smin * minor_off major minor (major div 2) (int k))"
  by (simp add: bres_def del: upt_Suc)

lemma bres_hd:
  assumes "0 < major"
  shows "hd (bres major minor smaj smin a b) = (a, b)"
proof -
  have "bres major minor smaj smin a b \<noteq> []"
    using assms by (simp add: bres_def)
  then have "hd (bres major minor smaj smin a b) = bres major minor smaj smin a b ! 0"
    by (rule hd_conv_nth)
  also have "\<dots> = (a, b)"
    using assms by (simp add: bres_nth minor_off_0)
  finally show ?thesis .
qed

lemma bres_last:
  assumes "0 < major"
  shows "last (bres major minor smaj smin a b) = (a + smaj * major, b + smin * minor)"
proof -
  have ne: "bres major minor smaj smin a b \<noteq> []"
    using assms by (simp add: bres_def)
  have "last (bres major minor smaj smin a b)
        = bres major minor smaj smin a b ! (nat (major + 1) - 1)"
    using last_conv_nth [OF ne] by (simp add: bres_length)
  also have "\<dots> = (a + smaj * major, b + smin * minor)"
    using assms by (simp add: bres_nth minor_off_end nat_diff_distrib)
  finally show ?thesis .
qed

lemma bres_distinct_major:
  assumes "smaj = 1 \<or> smaj = - 1"
  shows "distinct (map fst (bres major minor smaj smin a b))"
proof -
  have "map fst (bres major minor smaj smin a b)
        = map (\<lambda>k. a + smaj * int k) [0..<nat (major + 1)]"
    by (simp add: bres_def comp_def)
  moreover have "inj_on (\<lambda>k. a + smaj * int k) (set [0..<nat (major + 1)])"
    using assms by (auto simp: inj_on_def)
  ultimately show ?thesis by (simp add: distinct_map)
qed

lemma bres_adjacent:
  assumes "0 < major" "0 \<le> minor" "minor \<le> major"
    and "smaj = 1 \<or> smaj = - 1" "smin = 1 \<or> smin = - 1"
    and "Suc i < length (bres major minor smaj smin a b)"
  shows "adjacent (bres major minor smaj smin a b ! i) (bres major minor smaj smin a b ! Suc i)"
proof -
  from assms(6) have i: "i < nat (major + 1)" "Suc i < nat (major + 1)"
    by (simp_all add: bres_length)
  have "int (Suc i) = int i + 1" by simp
  with minor_off_Suc [OF assms(1-3), of "major div 2" "int i"]
  have "minor_off major minor (major div 2) (int (Suc i)) - minor_off major minor (major div 2) (int i) = 0
        \<or> minor_off major minor (major div 2) (int (Suc i)) - minor_off major minor (major div 2) (int i) = 1"
    by (simp add: add.commute) linarith
  then show ?thesis
    using assms(4,5) unfolding adjacent_def bres_nth [OF i(1)] bres_nth [OF i(2)]
    by (auto simp: algebra_simps abs_if)
qed

lemma line_cases:
  obtains (x_major) "\<bar>sy - ey\<bar> < \<bar>sx - ex\<bar>"
  | (y_major) "\<bar>sx - ex\<bar> \<le> \<bar>sy - ey\<bar>" "0 < \<bar>sy - ey\<bar>"
  | (dot) "ex = sx" "ey = (sy::int)"
  by (cases "\<bar>sy - ey\<bar> < \<bar>sx - ex\<bar>"; cases "0 < \<bar>sy - ey\<bar>") (auto simp: not_less)

lemma line_points_length:
  "length (line_points sx sy ex ey) = nat (max \<bar>sx - ex\<bar> \<bar>sy - ey\<bar> + 1)"
proof (cases rule: line_cases [of sy ey sx ex])
  case x_major
  then show ?thesis by (simp add: line_points_x_major bres_length max_def)
next
  case y_major
  then show ?thesis by (simp add: line_points_y_major bres_length max_def)
next
  case dot
  then show ?thesis by (simp add: line_points_dot)
qed

lemma line_points_hd: "hd (line_points sx sy ex ey) = (sx, sy)"
proof (cases rule: line_cases [of sy ey sx ex])
  case x_major
  then have "0 < \<bar>sx - ex\<bar>" by linarith
  with x_major show ?thesis by (simp add: line_points_x_major bres_hd)
next
  case y_major
  have "bres \<bar>sy - ey\<bar> \<bar>sx - ex\<bar> (if sy < ey then 1 else - 1) (if sx < ex then 1 else - 1) sy sx \<noteq> []"
    using y_major by (simp add: bres_def)
  with y_major show ?thesis by (simp add: line_points_y_major hd_map bres_hd)
next
  case dot
  then show ?thesis by (simp add: line_points_dot)
qed

lemma line_points_last: "last (line_points sx sy ex ey) = (ex, ey)"
proof (cases rule: line_cases [of sy ey sx ex])
  case x_major
  then have "0 < \<bar>sx - ex\<bar>" by linarith
  with x_major show ?thesis by (simp add: line_points_x_major bres_last)
next
  case y_major
  have "bres \<bar>sy - ey\<bar> \<bar>sx - ex\<bar> (if sy < ey then 1 else - 1) (if sx < ex then 1 else - 1) sy sx \<noteq> []"
    using y_major by (simp add: bres_def)
  with y_major show ?thesis by (simp add: line_points_y_major last_map bres_last)
next
  case dot
  then show ?thesis by (simp add: line_points_dot)
qed

lemma line_points_distinct_major:
  "if \<bar>sy - ey\<bar> < \<bar>sx - ex\<bar> then distinct (map fst (line_points sx sy ex ey))
   else distinct (map snd (line_points sx sy ex ey))"
proof (cases rule: line_cases [of sy ey sx ex])
  case x_major
  then show ?thesis by (simp add: line_points_x_major bres_distinct_major)
next
  case y_major
  let ?b = "bres \<bar>sy - ey\<bar> \<bar>sx - ex\<bar> (if sy < ey then 1 else - 1) (if sx < ex then 1 else - 1) sy sx"
  have "map snd (map prod.swap ?b) = map fst ?b"
    by (simp add: comp_def)
  moreover have "distinct (map fst ?b)"
    by (rule bres_distinct_major) simp
  moreover have "line_points sx sy ex ey = map prod.swap ?b"
    using y_major by (rule line_points_y_major)
  moreover have "\<not> \<bar>sy - ey\<bar> < \<bar>sx - ex\<bar>" using y_major by simp
  ultimately show ?thesis by (simp only: if_False)
next
  case dot
  then show ?thesis by (simp add: line_points_dot)
qed

lemma line_points_distinct: "distinct (line_points sx sy ex ey)"
  using line_points_distinct_major [of sy ey sx ex] distinct_map
  by (auto split: if_splits)

lemma adjacent_swap: "adjacent (prod.swap p) (prod.swap q) = adjacent p q"
  by (simp add: adjacent_def max.commute)

lemma line_points_adjacent:
  assumes "Suc i < length (line_points sx sy ex ey)"
  shows "adjacent (line_points sx sy ex ey ! i) (line_points sx sy ex ey ! Suc i)"
proof (cases rule: line_cases [of sy ey sx ex])
  case x_major
  let ?b = "bres \<bar>sx - ex\<bar> \<bar>sy - ey\<bar> (if sx < ex then 1 else - 1) (if sy < ey then 1 else - 1) sx sy"
  have eq: "line_points sx sy ex ey = ?b" using x_major by (rule line_points_x_major)
  have "adjacent (?b ! i) (?b ! Suc i)"
    using x_major assms unfolding eq by (intro bres_adjacent) auto
  then show ?thesis by (simp only: eq)
next
  case y_major
  let ?b = "bres \<bar>sy - ey\<bar> \<bar>sx - ex\<bar> (if sy < ey then 1 else - 1) (if sx < ex then 1 else - 1) sy sx"
  have eq: "line_points sx sy ex ey = map prod.swap ?b" using y_major by (rule line_points_y_major)
  from assms have len: "Suc i < length ?b" by (simp add: eq)
  have "adjacent (?b ! i) (?b ! Suc i)"
    using y_major len by (intro bres_adjacent) auto
  with len show ?thesis by (simp add: eq adjacent_swap)
next
  case dot
  with assms show ?thesis by (simp add: line_points_dot)
qed

section \<open>A line seen from its other end\<close>

text \<open>
  Without a tie the loop started at the far end visits the same pixels in reverse order;
  with a tie at iteration \<open>k\<close> the two loops put the pixel of that column (or row) on
  different sides.
\<close>

lemma tie_free_at:
  assumes "tie_free major minor" "0 < major" "0 \<le> k" "k \<le> major"
  shows "2 * ((k * minor) mod major) \<noteq> major"
proof (cases "k = 0")
  case True
  with assms(2) show ?thesis by simp
next
  case False
  with assms(3,4) have "k \<in> set [1..major]" by simp
  with assms(1) show ?thesis unfolding tie_free_def by blast
qed

lemma tie_free_odd: "odd major \<Longrightarrow> tie_free major minor"
  unfolding tie_free_def by (metis dvd_triv_left)

lemma tie_free_axis: "tie_free major 0"
  unfolding tie_free_def by auto

lemma tie_free_diagonal: "tie_free major major"
  unfolding tie_free_def by auto

lemma tie_witness:
  assumes "\<not> tie_free major minor"
  obtains k where "0 < major" "0 \<le> k" "k \<le> major" "2 * ((k * minor) mod major) = major"
    "minor \<noteq> 0"
proof -
  from assms obtain k where k: "1 \<le> k" "k \<le> major" "2 * ((k * minor) mod major) = major"
    unfolding tie_free_def by auto
  then have pos: "0 < major" by linarith
  have "minor \<noteq> 0"
  proof
    assume "minor = 0"
    with k(3) pos show False by simp
  qed
  with k pos that [of k] show thesis by simp
qed

lemma bres_rev:
  assumes "0 < major" and "tie_free major minor" and "minor = 0 \<or> smin' = - smin"
  shows "bres major minor (- smaj) smin' (a + smaj * major) (b + smin * minor)
         = rev (bres major minor smaj smin a b)"
proof (rule nth_equalityI)
  show "length (bres major minor (- smaj) smin' (a + smaj * major) (b + smin * minor))
        = length (rev (bres major minor smaj smin a b))"
    by (simp add: bres_length)
next
  fix i
  assume "i < length (bres major minor (- smaj) smin' (a + smaj * major) (b + smin * minor))"
  then have i: "i < nat (major + 1)" by (simp add: bres_length)
  then have j: "nat (major + 1) - Suc i < nat (major + 1)" by simp
  have ji: "int (nat (major + 1) - Suc i) = major - int i" using i by linarith
  have ik: "0 \<le> int i" "int i \<le> major" using i by linarith+
  have sum: "minor_off major minor (major div 2) (int i)
             + minor_off major minor (major div 2) (major - int i) = minor"
    using minor_off_sum [OF assms(1), of minor "int i"] tie_free_at [OF assms(2,1) ik] by simp
  have snd_eq: "b + smin * minor + smin' * minor_off major minor (major div 2) (int i)
        = b + smin * minor_off major minor (major div 2) (major - int i)"
  proof (cases "minor = 0")
    case True
    then show ?thesis by (simp add: minor_off_flat [OF assms(1)])
  next
    case False
    with assms(3) have s: "smin' = - smin" by simp
    have e: "minor_off major minor (major div 2) (major - int i)
          = minor - minor_off major minor (major div 2) (int i)"
      using sum by linarith
    show ?thesis unfolding e s by (simp add: algebra_simps)
  qed
  have "rev (bres major minor smaj smin a b) ! i
        = bres major minor smaj smin a b ! (nat (major + 1) - Suc i)"
    using i by (simp add: rev_nth bres_length)
  also have "\<dots> = (a + smaj * (major - int i),
                     b + smin * minor_off major minor (major div 2) (major - int i))"
    by (simp only: bres_nth [OF j] ji)
  also have "\<dots> = bres major minor (- smaj) smin' (a + smaj * major) (b + smin * minor) ! i"
    by (simp only: bres_nth [OF i] snd_eq) (simp add: algebra_simps)
  finally show "bres major minor (- smaj) smin' (a + smaj * major) (b + smin * minor) ! i
        = rev (bres major minor smaj smin a b) ! i" by simp
qed

lemma bres_tie_differs:
  assumes "0 < major" and "smaj = 1 \<or> smaj = - 1" and "smin = 1 \<or> smin = - 1"
    and "0 \<le> k" "k \<le> major" and "2 * ((k * minor) mod major) = major"
  shows "bres major minor smaj smin a b ! nat k
         \<notin> set (bres major minor (- smaj) (- smin) (a + smaj * major) (b + smin * minor))"
proof
  let ?M = "minor_off major minor (major div 2)"
  assume "bres major minor smaj smin a b ! nat k
         \<in> set (bres major minor (- smaj) (- smin) (a + smaj * major) (b + smin * minor))"
  then obtain j where j: "j < nat (major + 1)"
    and eq: "bres major minor (- smaj) (- smin) (a + smaj * major) (b + smin * minor) ! j
             = bres major minor smaj smin a b ! nat k"
    by (auto simp: in_set_conv_nth bres_length)
  have k: "nat k < nat (major + 1)" using assms(4,5) by linarith
  from eq have fst_eq: "a + smaj * major + - smaj * int j = a + smaj * int (nat k)"
    and snd_eq: "b + smin * minor + - smin * ?M (int j) = b + smin * ?M (int (nat k))"
    unfolding bres_nth [OF j] bres_nth [OF k] by simp_all
  from fst_eq assms(2) have "int j = major - int (nat k)" by auto
  with assms(4) have jk: "int j = major - k" by simp
  from snd_eq assms(3) have "minor - ?M (int j) = ?M (int (nat k))" by auto
  with jk assms(4) have "?M k + ?M (major - k) = minor" by simp
  with minor_off_sum [OF assms(1), of minor k] assms(6) show False by simp
qed

lemma step_end: "s + (if s < e then 1 else - 1) * \<bar>s - e\<bar> = (e::int)"
  by simp

lemma step_flip:
  "\<bar>s - e\<bar> = 0 \<or> (if e < s then 1 else - 1) = - (if s < (e::int) then 1 else - 1 :: int)"
  by auto

lemma line_points_backward_x:
  assumes "\<bar>sy - ey\<bar> < \<bar>sx - ex\<bar>"
  shows "line_points ex ey sx sy
         = bres \<bar>sx - ex\<bar> \<bar>sy - ey\<bar> (- (if sx < ex then 1 else - 1)) (if ey < sy then 1 else - 1)
             (sx + (if sx < ex then 1 else - 1) * \<bar>sx - ex\<bar>)
             (sy + (if sy < ey then 1 else - 1) * \<bar>sy - ey\<bar>)"
proof -
  have "\<bar>ey - sy\<bar> < \<bar>ex - sx\<bar>" using assms by linarith
  from line_points_x_major [OF this] assms show ?thesis
    by (simp only: step_end abs_minus_commute [of ex sx] abs_minus_commute [of ey sy]) auto
qed

lemma line_points_backward_y:
  assumes "\<bar>sx - ex\<bar> \<le> \<bar>sy - ey\<bar>" "0 < \<bar>sy - ey\<bar>"
  shows "line_points ex ey sx sy
         = map prod.swap
            (bres \<bar>sy - ey\<bar> \<bar>sx - ex\<bar> (- (if sy < ey then 1 else - 1)) (if ex < sx then 1 else - 1)
              (sy + (if sy < ey then 1 else - 1) * \<bar>sy - ey\<bar>)
              (sx + (if sx < ex then 1 else - 1) * \<bar>sx - ex\<bar>))"
proof -
  have "\<bar>ex - sx\<bar> \<le> \<bar>ey - sy\<bar>" "0 < \<bar>ey - sy\<bar>" using assms by linarith+
  from line_points_y_major [OF this] assms show ?thesis
    by (simp only: step_end abs_minus_commute [of ex sx] abs_minus_commute [of ey sy]) auto
qed

lemma line_points_rev:
  assumes "tie_free (max \<bar>sx - ex\<bar> \<bar>sy - ey\<bar>) (min \<bar>sx - ex\<bar> \<bar>sy - ey\<bar>)"
  shows "line_points ex ey sx sy = rev (line_points sx sy ex ey)"
proof (cases rule: line_cases [of sy ey sx ex])
  case x_major
  then have m: "max \<bar>sx - ex\<bar> \<bar>sy - ey\<bar> = \<bar>sx - ex\<bar>" "min \<bar>sx - ex\<bar> \<bar>sy - ey\<bar> = \<bar>sy - ey\<bar>"
    and pos: "0 < \<bar>sx - ex\<bar>" by linarith+
  show ?thesis
    unfolding line_points_backward_x [OF x_major] line_points_x_major [OF x_major]
    using assms step_flip [of sy ey] unfolding m by (intro bres_rev pos)
next
  case y_major
  then have m: "max \<bar>sx - ex\<bar> \<bar>sy - ey\<bar> = \<bar>sy - ey\<bar>" "min \<bar>sx - ex\<bar> \<bar>sy - ey\<bar> = \<bar>sx - ex\<bar>"
    by linarith+
  show ?thesis
    unfolding line_points_backward_y [OF y_major] line_points_y_major [OF y_major] rev_map
    using assms step_flip [of sx ex] unfolding m
    by (intro arg_cong [of _ _ "map prod.swap"] bres_rev y_major(2))
next
  case dot
  then show ?thesis by (simp add: line_points_dot)
qed

lemma swap_notin: "p \<notin> set B \<Longrightarrow> prod.swap p \<notin> set (map prod.swap B)"
  by (cases p) auto

lemma swap_in: "p \<in> set B \<Longrightarrow> prod.swap p \<in> set (map prod.swap B)"
  by simp

lemma line_points_tie:
  assumes "\<not> tie_free (max \<bar>sx - ex\<bar> \<bar>sy - ey\<bar>) (min \<bar>sx - ex\<bar> \<bar>sy - ey\<bar>)"
  shows "set (line_points ex ey sx sy) \<noteq> set (line_points sx sy ex ey)"
proof (cases rule: line_cases [of sy ey sx ex])
  case x_major
  then have m: "max \<bar>sx - ex\<bar> \<bar>sy - ey\<bar> = \<bar>sx - ex\<bar>" "min \<bar>sx - ex\<bar> \<bar>sy - ey\<bar> = \<bar>sy - ey\<bar>"
    by linarith+
  from assms obtain k where k: "0 < \<bar>sx - ex\<bar>" "0 \<le> k" "k \<le> \<bar>sx - ex\<bar>"
    "2 * ((k * \<bar>sy - ey\<bar>) mod \<bar>sx - ex\<bar>) = \<bar>sx - ex\<bar>" "\<bar>sy - ey\<bar> \<noteq> 0"
    unfolding m by (rule tie_witness)
  let ?F = "bres \<bar>sx - ex\<bar> \<bar>sy - ey\<bar> (if sx < ex then 1 else - 1) (if sy < ey then 1 else - 1) sx sy"
  from k(5) step_flip [of sy ey]
  have flip: "(if ey < sy then 1 else - 1) = - (if sy < ey then 1 else - 1 :: int)" by blast
  have s1: "(if sx < ex then 1 else - 1) = (1::int) \<or> (if sx < ex then 1 else - 1) = (- 1::int)"
    and s2: "(if sy < ey then 1 else - 1) = (1::int) \<or> (if sy < ey then 1 else - 1) = (- 1::int)"
    by simp_all
  have kn: "nat k < length ?F" using k(2,3) unfolding bres_length by linarith
  have "?F ! nat k \<notin> set (line_points ex ey sx sy)"
    unfolding line_points_backward_x [OF x_major] flip
    using k(1) s1 s2 k(2,3,4) by (rule bres_tie_differs)
  moreover have "?F ! nat k \<in> set ?F"
    using kn by (rule nth_mem)
  ultimately show ?thesis
    unfolding line_points_x_major [OF x_major] by blast
next
  case y_major
  then have m: "max \<bar>sx - ex\<bar> \<bar>sy - ey\<bar> = \<bar>sy - ey\<bar>" "min \<bar>sx - ex\<bar> \<bar>sy - ey\<bar> = \<bar>sx - ex\<bar>"
    by linarith+
  from assms obtain k where k: "0 < \<bar>sy - ey\<bar>" "0 \<le> k" "k \<le> \<bar>sy - ey\<bar>"
    "2 * ((k * \<bar>sx - ex\<bar>) mod \<bar>sy - ey\<bar>) = \<bar>sy - ey\<bar>" "\<bar>sx - ex\<bar> \<noteq> 0"
    unfolding m by (rule tie_witness)
  let ?F = "bres \<bar>sy - ey\<bar> \<bar>sx - ex\<bar> (if sy < ey then 1 else - 1) (if sx < ex then 1 else - 1) sy sx"
  let ?B = "bres \<bar>sy - ey\<bar> \<bar>sx - ex\<bar> (- (if sy < ey then 1 else - 1)) (- (if sx < ex then 1 else - 1))
            (sy + (if sy < ey then 1 else - 1) * \<bar>sy - ey\<bar>)
            (sx + (if sx < ex then 1 else - 1) * \<bar>sx - ex\<bar>)"
  from k(5) step_flip [of sx ex]
  have flip: "(if ex < sx then 1 else - 1) = - (if sx < ex then 1 else - 1 :: int)" by blast
  have s1: "(if sx < ex then 1 else - 1) = (1::int) \<or> (if sx < ex then 1 else - 1) = (- 1::int)"
    and s2: "(if sy < ey then 1 else - 1) = (1::int) \<or> (if sy < ey then 1 else - 1) = (- 1::int)"
    by simp_all
  have bwd: "line_points ex ey sx sy = map prod.swap ?B"
    unfolding line_points_backward_y [OF y_major] flip ..
  have kn: "nat k < length ?F" using k(2,3) unfolding bres_length by linarith
  have out: "?F ! nat k \<notin> set ?B"
    using k(1) s2 s1 k(2,3,4) by (rule bres_tie_differs)
  have inn: "?F ! nat k \<in> set ?F"
    using kn by (rule nth_mem)
  have "prod.swap (?F ! nat k) \<notin> set (map prod.swap ?B)"
    using out by (rule swap_notin)
  moreover have "prod.swap (?F ! nat k) \<in> set (map prod.swap ?F)"
    using inn by (rule swap_in)
  ultimately show ?thesis
    unfolding line_points_y_major [OF y_major] bwd by blast
next
  case dot
  then have "tie_free (max \<bar>sx - ex\<bar> \<bar>sy - ey\<bar>) (min \<bar>sx - ex\<bar> \<bar>sy - ey\<bar>)"
    by (simp add: tie_free_def)
  with assms show ?thesis by contradiction
qed

section \<open>Running a line\<close>

text \<open>
  The loops of \<^verbatim>\<open>line\<close> plot the points of \<open>line_points\<close> in order and stop at the
  first one that does not index the buffer.
\<close>

lemma line_loop_x_plot:
  "line_loop_x dx dy sxs sys c n x y e img = plot_all img c (points_x dx dy sxs sys n x y e)"
  by (induction n arbitrary: x y e img) (simp_all add: Let_def split: prod.splits option.splits)

lemma line_loop_y_plot:
  "line_loop_y dx dy sxs sys c n x y e img = plot_all img c (points_y dx dy sxs sys n x y e)"
  by (induction n arbitrary: x y e img) (simp_all add: Let_def split: prod.splits option.splits)

lemma line_plot:
  "validate_rgba color = Inr c \<Longrightarrow>
   line img sx sy ex ey color = plot_all img c (line_points sx sy ex ey)"
  by (simp add: line_def line_points_def Let_def line_loop_x_plot line_loop_y_plot)

lemma plot_all_ok:
  "wf_image img \<Longrightarrow> \<forall>p \<in> set ps. inside img p \<Longrightarrow>
   plot_all img c ps = (None, fold (write_px c) ps img)"
  by (induction ps arbitrary: img) (simp_all add: set_pixel_inside wf_write_px)

lemma plot_all_stop:
  assumes "wf_image img" "\<forall>p \<in> set ps. inside img p" "\<not> inside img q"
  shows "plot_all img c (ps @ q # rest)
         = (Some (IndexError (pixel_msg (fst q) (snd q))), fold (write_px c) ps img)"
  using assms
proof (induction ps arbitrary: img)
  case Nil
  from set_pixel_outside [OF Nil(1) Nil(3), of c] obtain e where
    "is_IndexError e" "set_pixel img (fst q) (snd q) (tuple_arg c) = (Some e, img)" by blast
  then show ?case by simp
next
  case (Cons p ps)
  then show ?case by (simp add: set_pixel_inside wf_write_px)
qed

lemma plot_all_run:
  assumes "wf_image img"
  shows "plot_all img c ps
         = (if length (takeWhile (inside img) ps) = length ps then None
            else Some (IndexError (pixel_msg (fst (ps ! length (takeWhile (inside img) ps)))
                                             (snd (ps ! length (takeWhile (inside img) ps))))),
            fold (write_px c) (takeWhile (inside img) ps) img)"
proof (cases "dropWhile (inside img) ps")
  case Nil
  then have all: "\<forall>p \<in> set ps. inside img p" by simp
  then have tw: "takeWhile (inside img) ps = ps" by simp
  show ?thesis unfolding tw using plot_all_ok [OF assms all, of c] by simp
next
  case (Cons q rest)
  let ?t = "takeWhile (inside img) ps"
  have ps: "ps = ?t @ q # rest"
    using Cons takeWhile_dropWhile_id [of "inside img" ps] by simp
  have q: "\<not> inside img q"
    using Cons hd_dropWhile [of "inside img" ps] by simp
  have t: "\<forall>p \<in> set ?t. inside img p"
    by (auto dest: set_takeWhileD)
  have len: "length ?t < length ps"
    using arg_cong [OF ps, of length] by simp
  have nth: "ps ! length ?t = q"
    using arg_cong [OF ps, of "\<lambda>l. l ! length ?t"] by simp
  have "plot_all img c ps = plot_all img c (?t @ q # rest)"
    using ps by simp
  also have "\<dots> = (Some (IndexError (pixel_msg (fst q) (snd q))), fold (write_px c) ?t img)"
    using assms t q by (rule plot_all_stop)
  finally show ?thesis using len nth by simp
qed

lemma line_run:
  assumes "wf_image img" "validate_rgba color = Inr c"
  shows "line img sx sy ex ey color
         = (if length (takeWhile (inside img) (line_points sx sy ex ey))
               = length (line_points sx sy ex ey) then None
            else Some (IndexError (pixel_msg
                   (fst (line_points sx sy ex ey ! length (takeWhile (inside img) (line_points sx sy ex ey))))
                   (snd (line_points sx sy ex ey ! length (takeWhile (inside img) (line_points sx sy ex ey)))))),
            fold (write_px c) (takeWhile (inside img) (line_points sx sy ex ey)) img)"
  using plot_all_run [OF assms(1)] line_plot [OF assms(2)] by simp

lemma line_all_inside:
  assumes "wf_image img" and "validate_rgba color = Inr c"
    and "\<forall>p \<in> set (line_points sx sy ex ey). inside img p"
  shows "line img sx sy ex ey color = (None, fold (write_px c) (line_points sx sy ex ey) img)"
proof -
  have tw: "takeWhile (inside img) (line_points sx sy ex ey) = line_points sx sy ex ey"
    using assms(3) by simp
  show ?thesis
    using line_run [OF assms(1,2), of sx sy ex ey] unfolding tw by simp
qed

lemma first_outside_all: "\<forall>p \<in> set ps. inside img p \<Longrightarrow> first_outside img ps = length ps"
proof -
  assume "\<forall>p \<in> set ps. inside img p"
  then have tw: "takeWhile (inside img) ps = ps" by simp
  show ?thesis unfolding first_outside_def tw ..
qed

lemma first_outside_some:
  assumes "\<exists>p \<in> set ps. \<not> inside img p"
  shows "first_outside img ps < length ps"
    and "\<not> inside img (ps ! first_outside img ps)"
    and "\<forall>i < first_outside img ps. inside img (ps ! i)"
proof -
  show lt: "first_outside img ps < length ps"
  proof -
    have "takeWhile (inside img) ps \<noteq> ps"
      using assms by simp
    moreover have "takeWhile (inside img) ps = take (length (takeWhile (inside img) ps)) ps"
      by (rule takeWhile_eq_take)
    ultimately have "length (takeWhile (inside img) ps) \<noteq> length ps"
      by (metis take_all order_refl)
    with length_takeWhile_le [of "inside img" ps] show ?thesis
      by (simp add: first_outside_def)
  qed
  show "\<not> inside img (ps ! first_outside img ps)"
    using lt unfolding first_outside_def by (rule nth_length_takeWhile)
  show "\<forall>i < first_outside img ps. inside img (ps ! i)"
    unfolding first_outside_def
    by (metis nth_mem set_takeWhileD takeWhile_nth)
qed

lemma takeWhile_take: "takeWhile P xs = take (length (takeWhile P xs)) xs"
  by (metis takeWhile_eq_take)

lemma take_inside:
  "\<forall>p \<in> set (take (first_outside img ps) ps). inside img p"
  unfolding first_outside_def takeWhile_take [symmetric]
  by (auto dest: set_takeWhileD)

lemma line_abort:
  assumes "wf_image img" and "validate_rgba color = Inr c"
    and "\<exists>p \<in> set (line_points sx sy ex ey). \<not> inside img p"
  shows "line img sx sy ex ey color
         = (Some (IndexError (pixel_msg
                   (fst (line_points sx sy ex ey ! first_outside img (line_points sx sy ex ey)))
                   (snd (line_points sx sy ex ey ! first_outside img (line_points sx sy ex ey))))),
            fold (write_px c) (take (first_outside img (line_points sx sy ex ey))
                                 (line_points sx sy ex ey)) img)"
proof -
  have "first_outside img (line_points sx sy ex ey) \<noteq> length (line_points sx sy ex ey)"
    using first_outside_some(1) [OF assms(3)] by simp
  then show ?thesis
    using line_run [OF assms(1,2), of sx sy ex ey]
      takeWhile_take [of "inside img" "line_points sx sy ex ey"]
    by (simp add: first_outside_def)
qed

section \<open>The images and lines of the tests\<close>

lemma small_image_ctor: "Image 10 10 PyNone = Inr small_image"
  by (simp add: Image_def small_image_def uint8_def)

lemma wf_small_image: "wf_image small_image"
  by (simp add: wf_image_def small_image_def)

lemma get_small_image:
  "0 \<le> x \<Longrightarrow> x < 10 \<Longrightarrow> 0 \<le> y \<Longrightarrow> y < 10 \<Longrightarrow>
   get_pixel small_image x y = Inr (255, 255, 255, 255)"
  using get_pixel_inside [OF wf_small_image, of "(x, y)"]
  by (simp add: inside_def small_image_def)

lemma lp1: "line_points 2 5 7 5 = [(2, 5), (3, 5), (4, 5), (5, 5), (6, 5), (7, 5)]"
  by (simp add: line_points_def eval_nat_numeral)

lemma lp2: "line_points 1 1 5 5 = [(1, 1), (2, 2), (3, 3), (4, 4), (5, 5)]"
  by (simp add: line_points_def eval_nat_numeral)

lemma lp3: "line_points 7 5 12 5 = [(7, 5), (8, 5), (9, 5), (10, 5), (11, 5), (12, 5)]"
  by (simp add: line_points_def eval_nat_numeral)

lemma lp4: "line_points 0 0 2 1 = [(0, 0), (1, 0), (2, 1)]"
  by (simp add: line_points_def eval_nat_numeral)

lemma lp5: "line_points 2 1 0 0 = [(2, 1), (1, 1), (0, 0)]"
  by (simp add: line_points_def eval_nat_numeral)

lemma lp6: "line_points 0 0 3 1 = [(0, 0), (1, 0), (2, 1), (3, 1)]"
  by (simp add: line_points_def eval_nat_numeral)

lemma fo3: "first_outside small_image (line_points 7 5 12 5) = 3"
  by (simp add: lp3 first_outside_def inside_def small_image_def)

lemma tie_free_3_1: "tie_free 3 1"
  by (simp add: tie_free_def upto.simps)

section \<open>Lines\<close>

text \<open>
  Claim C4. On a well-formed image and with a valid colour, a line whose pixels all lie
  inside the image raises nothing and visits \<open>max(|sx - ex|, |sy - ey|) + 1\<close> pairwise
  distinct pixels, the first \<open>(sx, sy)\<close> and the last \<open>(ex, ey)\<close>; it has one pixel for
  each value of the major coordinate, consecutive pixels touch by a side or a corner, and
  afterwards exactly the visited pixels hold the colour while every other pixel is as
  before.
\<close>

theorem line_inside_segment:
  assumes "wf_image img" and "validate_rgba color = Inr c" and "pixel_ok c"
    and "\<forall>p \<in> set (line_points sx sy ex ey). inside img p"
  shows "fst (line img sx sy ex ey color) = None
    \<and> wf_image (snd (line img sx sy ex ey color))
    \<and> length (line_points sx sy ex ey) = nat (max \<bar>sx - ex\<bar> \<bar>sy - ey\<bar> + 1)
    \<and> distinct (line_points sx sy ex ey)
    \<and> hd (line_points sx sy ex ey) = (sx, sy)
    \<and> last (line_points sx sy ex ey) = (ex, ey)
    \<and> (if \<bar>sy - ey\<bar> < \<bar>sx - ex\<bar> then distinct (map fst (line_points sx sy ex ey))
        else distinct (map snd (line_points sx sy ex ey)))
    \<and> (\<forall>i. Suc i < length (line_points sx sy ex ey) \<longrightarrow>
          adjacent (line_points sx sy ex ey ! i) (line_points sx sy ex ey ! Suc i))
    \<and> (\<forall>q. inside img q \<longrightarrow>
          get_pixel (snd (line img sx sy ex ey color)) (fst q) (snd q)
          = (if q \<in> set (line_points sx sy ex ey) then Inr c
             else get_pixel img (fst q) (snd q)))"
proof -
  have tw: "takeWhile (inside img) (line_points sx sy ex ey) = line_points sx sy ex ey"
    using assms(4) by simp
  have run: "line img sx sy ex ey color = (None, fold (write_px c) (line_points sx sy ex ey) img)"
    using line_run [OF assms(1,2), of sx sy ex ey] unfolding tw by simp
  have px: "\<forall>q. inside img q \<longrightarrow>
          get_pixel (snd (line img sx sy ex ey color)) (fst q) (snd q)
          = (if q \<in> set (line_points sx sy ex ey) then Inr c
             else get_pixel img (fst q) (snd q))"
    using get_pixel_fold_write [OF assms(1,4), of _ c] uint8_px_ok [OF assms(3)]
    by (simp add: run)
  have wf: "wf_image (snd (line img sx sy ex ey color))"
    using assms(1) by (simp add: run wf_fold_write)
  show ?thesis
    using run wf px line_points_length line_points_distinct line_points_hd line_points_last
      line_points_distinct_major [of sy ey sx ex] line_points_adjacent
    by (intro conjI allI impI) simp_all
qed

theorem line_inside_segment_witness:
  "wf_image small_image
   \<and> validate_rgba (Tuple4 255 0 0 255) = Inr (255, 0, 0, 255)
   \<and> pixel_ok (255, 0, 0, 255)
   \<and> list_all (inside small_image) (line_points 2 5 7 5)
   \<and> fst (line small_image 2 5 7 5 (Tuple4 255 0 0 255)) = None
   \<and> length (line_points 2 5 7 5) = 6
   \<and> get_pixel (snd (line small_image 2 5 7 5 (Tuple4 255 0 0 255))) 7 5 = Inr (255, 0, 0, 255)
   \<and> get_pixel (snd (line small_image 2 5 7 5 (Tuple4 255 0 0 255))) 8 5
       = Inr (255, 255, 255, 255)"
proof -
  have h1: "wf_image small_image" by (rule wf_small_image)
  have h2: "validate_rgba (Tuple4 255 0 0 255) = Inr (255, 0, 0, 255)" by simp
  have h3: "pixel_ok (255, 0, 0, 255)" by (simp add: channel_ok_def)
  have h4: "\<forall>p \<in> set (line_points 2 5 7 5). inside small_image p"
    by (simp add: lp1 inside_def small_image_def)
  have i1: "inside small_image (7, 5)" "inside small_image (8, 5)"
    by (simp_all add: inside_def small_image_def)
  have g: "get_pixel small_image 8 5 = Inr (255, 255, 255, 255)"
    by (simp add: get_pixel_def check_bounds_def np_getitem_def np_index_def small_image_def)
  from line_inside_segment [OF h1 h2 h3 h4] have
    a: "fst (line small_image 2 5 7 5 (Tuple4 255 0 0 255)) = None"
    and b: "length (line_points 2 5 7 5) = nat (max \<bar>2 - 7\<bar> \<bar>5 - 5\<bar> + 1)"
    and c: "\<forall>q. inside small_image q \<longrightarrow>
          get_pixel (snd (line small_image 2 5 7 5 (Tuple4 255 0 0 255))) (fst q) (snd q)
          = (if q \<in> set (line_points 2 5 7 5) then Inr (255, 0, 0, 255)
             else get_pixel small_image (fst q) (snd q))"
    by blast+
  from c i1 have "get_pixel (snd (line small_image 2 5 7 5 (Tuple4 255 0 0 255))) 7 5 = Inr (255, 0, 0, 255)"
    "get_pixel (snd (line small_image 2 5 7 5 (Tuple4 255 0 0 255))) 8 5 = Inr (255, 255, 255, 255)"
    using g by (auto simp: lp1 dest!: spec [of _ "(7, 5)"] spec [of _ "(8, 5)"])
  with a b h1 h2 h3 h4 show ?thesis by (simp add: list_all_iff)
qed

text \<open>
  Claim C5, as the code has it. Write \<open>n\<close> for the larger and \<open>m\<close> for the smaller of
  \<open>|sx - ex|\<close> and \<open>|sy - ey|\<close>. The line drawn from \<open>(ex, ey)\<close> to \<open>(sx, sy)\<close> visits the
  same set of pixels as the line from \<open>(sx, sy)\<close> to \<open>(ex, ey)\<close> exactly when no \<open>k\<close> in
  \<open>1..n\<close> has \<open>2 * ((k * m) mod n) = n\<close>; this holds whenever \<open>n\<close> is odd and for
  horizontal, vertical and exact diagonal lines. When it holds and the line lies inside a
  well-formed image, both calls with a valid colour end in the same result.
\<close>

theorem line_reversal:
  "(set (line_points ex ey sx sy) = set (line_points sx sy ex ey)
      \<longleftrightarrow> tie_free (max \<bar>sx - ex\<bar> \<bar>sy - ey\<bar>) (min \<bar>sx - ex\<bar> \<bar>sy - ey\<bar>))
   \<and> (wf_image img \<and> validate_rgba color = Inr c \<and> pixel_ok c
        \<and> (\<forall>p \<in> set (line_points sx sy ex ey). inside img p)
        \<and> tie_free (max \<bar>sx - ex\<bar> \<bar>sy - ey\<bar>) (min \<bar>sx - ex\<bar> \<bar>sy - ey\<bar>)
       \<longrightarrow> line img ex ey sx sy color = line img sx sy ex ey color)"
proof (intro conjI iffI impI)
  assume "set (line_points ex ey sx sy) = set (line_points sx sy ex ey)"
  then show "tie_free (max \<bar>sx - ex\<bar> \<bar>sy - ey\<bar>) (min \<bar>sx - ex\<bar> \<bar>sy - ey\<bar>)"
    using line_points_tie [of sx ex sy ey] by blast
next
  assume "tie_free (max \<bar>sx - ex\<bar> \<bar>sy - ey\<bar>) (min \<bar>sx - ex\<bar> \<bar>sy - ey\<bar>)"
  then show "set (line_points ex ey sx sy) = set (line_points sx sy ex ey)"
    by (simp add: line_points_rev)
next
  assume h: "wf_image img \<and> validate_rgba color = Inr c \<and> pixel_ok c
        \<and> (\<forall>p \<in> set (line_points sx sy ex ey). inside img p)
        \<and> tie_free (max \<bar>sx - ex\<bar> \<bar>sy - ey\<bar>) (min \<bar>sx - ex\<bar> \<bar>sy - ey\<bar>)"
  then have rev: "line_points ex ey sx sy = rev (line_points sx sy ex ey)"
    by (simp add: line_points_rev)
  from h have fwd: "\<forall>p \<in> set (line_points sx sy ex ey). inside img p" by blast
  then have bwd: "\<forall>p \<in> set (line_points ex ey sx sy). inside img p"
    unfolding rev by simp
  from h have wf: "wf_image img" and v: "validate_rgba color = Inr c" by blast+
  show "line img ex ey sx sy color = line img sx sy ex ey color"
    unfolding line_all_inside [OF wf v fwd] line_all_inside [OF wf v bwd]
    unfolding rev using fold_write_rev [OF wf fwd] by simp
qed

theorem line_reversal_counterexample:
  "list_all (inside small_image) (line_points 0 0 2 1)
   \<and> list_all (inside small_image) (line_points 2 1 0 0)
   \<and> set (line_points 2 1 0 0) \<noteq> set (line_points 0 0 2 1)
   \<and> get_pixel (snd (line small_image 0 0 2 1 (Tuple3 255 0 0))) 1 0 = Inr (255, 0, 0, 255)
   \<and> get_pixel (snd (line small_image 2 1 0 0 (Tuple3 255 0 0))) 1 0 = Inr (255, 255, 255, 255)"
proof -
  have v: "validate_rgba (Tuple3 255 0 0) = Inr (255, 0, 0, 255)" by simp
  have a: "\<forall>p \<in> set (line_points 0 0 2 1). inside small_image p"
    and b: "\<forall>p \<in> set (line_points 2 1 0 0). inside small_image p"
    by (simp_all add: lp4 lp5 inside_def small_image_def)
  have i: "inside small_image (1, 0)" by (simp add: inside_def small_image_def)
  have "get_pixel (snd (line small_image 0 0 2 1 (Tuple3 255 0 0))) 1 0 = Inr (255, 0, 0, 255)"
    unfolding line_all_inside [OF wf_small_image v a]
    using get_pixel_fold_write [OF wf_small_image a i, of "(255, 0, 0, 255)"]
    by (simp add: lp4 uint8_def)
  moreover
  have "get_pixel (snd (line small_image 2 1 0 0 (Tuple3 255 0 0))) 1 0 = Inr (255, 255, 255, 255)"
    unfolding line_all_inside [OF wf_small_image v b]
    using get_pixel_fold_write [OF wf_small_image b i, of "(255, 0, 0, 255)"] get_small_image [of 1 0]
    by (simp add: lp5)
  moreover have "set (line_points 2 1 0 0) \<noteq> set (line_points 0 0 2 1)"
  proof -
    have "(1, 0) \<in> set (line_points 0 0 2 1)" "(1, 0) \<notin> set (line_points 2 1 0 0)"
      by (simp_all add: lp4 lp5)
    then show ?thesis by blast
  qed
  ultimately show ?thesis using a b by (simp add: list_all_iff)
qed

theorem line_reversal_witness:
  "wf_image small_image
   \<and> validate_rgba (Tuple3 255 0 0) = Inr (255, 0, 0, 255)
   \<and> pixel_ok (255, 0, 0, 255)
   \<and> list_all (inside small_image) (line_points 0 0 3 1)
   \<and> tie_free (max \<bar>0 - 3\<bar> \<bar>0 - 1\<bar>) (min \<bar>0 - 3\<bar> \<bar>0 - 1\<bar>)
   \<and> set (line_points 3 1 0 0) = set (line_points 0 0 3 1)
   \<and> line small_image 3 1 0 0 (Tuple3 255 0 0) = line small_image 0 0 3 1 (Tuple3 255 0 0)"
proof -
  have h1: "wf_image small_image" by (rule wf_small_image)
  have h2: "validate_rgba (Tuple3 255 0 0) = Inr (255, 0, 0, 255)" by simp
  have h3: "pixel_ok (255, 0, 0, 255)" by (simp add: channel_ok_def)
  have h4: "\<forall>p \<in> set (line_points 0 0 3 1). inside small_image p"
    by (simp add: lp6 inside_def small_image_def)
  have h5: "tie_free (max \<bar>0 - 3\<bar> \<bar>0 - 1\<bar>) (min \<bar>0 - 3\<bar> \<bar>0 - 1\<bar>)"
    using tie_free_3_1 by simp
  from line_reversal [of 3 1 0 0 small_image "Tuple3 255 0 0" "(255, 0, 0, 255)"] h1 h2 h3 h4 h5
  have "set (line_points 3 1 0 0) = set (line_points 0 0 3 1)"
    and "line small_image 3 1 0 0 (Tuple3 255 0 0) = line small_image 0 0 3 1 (Tuple3 255 0 0)"
    by blast+
  with h1 h2 h3 h4 h5 show ?thesis by (simp add: list_all_iff)
qed

text \<open>
  Claim C6. When some pixel of the line is outside the image, the call raises the
  \<^verbatim>\<open>IndexError\<close> whose message names the first such pixel in iteration order, and
  no pixel that comes later in the iteration is written.
\<close>

theorem line_outside_aborts:
  assumes "wf_image img" and "validate_rgba color = Inr c" and "pixel_ok c"
    and "\<exists>p \<in> set (line_points sx sy ex ey). \<not> inside img p"
  shows "(let pts = line_points sx sy ex ey; k = first_outside img pts
          in k < length pts
           \<and> \<not> inside img (pts ! k)
           \<and> (\<forall>i < k. inside img (pts ! i))
           \<and> fst (line img sx sy ex ey color)
               = Some (IndexError (pixel_msg (fst (pts ! k)) (snd (pts ! k))))
           \<and> (\<forall>j. k < j \<and> j < length pts \<and> inside img (pts ! j) \<longrightarrow>
                 get_pixel (snd (line img sx sy ex ey color)) (fst (pts ! j)) (snd (pts ! j))
                 = get_pixel img (fst (pts ! j)) (snd (pts ! j)))
           \<and> pixel_msg (fst (pts ! k)) (snd (pts ! k))
               = ''Pixel (x='' @ str_int (fst (pts ! k)) @ '', y='' @ str_int (snd (pts ! k))
                   @ '') is out of bounds!''
           \<and> map read_int [str_int (fst (pts ! k)), str_int (snd (pts ! k))]
               = [fst (pts ! k), snd (pts ! k)]
           \<and> (\<forall>q. fst (line img sx sy ex ey color)
                      = Some (IndexError (pixel_msg (fst q) (snd q)))
                    \<longleftrightarrow> q = pts ! k))"
proof -
  let ?pts = "line_points sx sy ex ey"
  let ?k = "first_outside img ?pts"
  note fo = first_outside_some [OF assms(4)]
  note run = line_abort [OF assms(1,2,4)]
  have msg: "pixel_msg (fst (?pts ! ?k)) (snd (?pts ! ?k))
               = ''Pixel (x='' @ str_int (fst (?pts ! ?k)) @ '', y='' @ str_int (snd (?pts ! ?k))
                   @ '') is out of bounds!''"
    by (simp only: pixel_msg_def)
  have reads: "map read_int [str_int (fst (?pts ! ?k)), str_int (snd (?pts ! ?k))]
               = [fst (?pts ! ?k), snd (?pts ! ?k)]"
    by (simp only: list.map read_str_int)
  have unique: "fst (line img sx sy ex ey color) = Some (IndexError (pixel_msg (fst q) (snd q)))
              \<longleftrightarrow> q = ?pts ! ?k" for q
    unfolding run by (auto simp: pixel_msg_inj prod_eq_iff)
  have later: "get_pixel (snd (line img sx sy ex ey color)) (fst (?pts ! j)) (snd (?pts ! j))
               = get_pixel img (fst (?pts ! j)) (snd (?pts ! j))"
    if j: "?k < j" "j < length ?pts" "inside img (?pts ! j)" for j
  proof -
    have "?pts ! j \<notin> set (take ?k ?pts)"
    proof
      assume "?pts ! j \<in> set (take ?k ?pts)"
      then obtain i where i: "i < ?k" "i < length ?pts" "?pts ! i = ?pts ! j"
        by (auto simp: in_set_conv_nth)
      with j line_points_distinct [of sx sy ex ey] have "i = j"
        by (simp add: nth_eq_iff_index_eq)
      with i j show False by simp
    qed
    with get_pixel_fold_write [OF assms(1) take_inside j(3)] show ?thesis
      by (simp add: run)
  qed
  have raised: "fst (line img sx sy ex ey color)
                = Some (IndexError (pixel_msg (fst (?pts ! ?k)) (snd (?pts ! ?k))))"
    by (simp add: run)
  show ?thesis
    unfolding Let_def using fo later raised msg reads unique by (intro conjI allI impI) blast+
qed

theorem line_outside_aborts_witness:
  "wf_image small_image
   \<and> validate_rgba (Tuple4 255 0 0 255) = Inr (255, 0, 0, 255)
   \<and> pixel_ok (255, 0, 0, 255)
   \<and> (\<exists>p \<in> set (line_points 7 5 12 5). \<not> inside small_image p)
   \<and> fst (line small_image 7 5 12 5 (Tuple4 255 0 0 255))
       = Some (IndexError ''Pixel (x=10, y=5) is out of bounds!'')"
proof -
  have h1: "wf_image small_image" by (rule wf_small_image)
  have h2: "validate_rgba (Tuple4 255 0 0 255) = Inr (255, 0, 0, 255)" by simp
  have h3: "pixel_ok (255, 0, 0, 255)" by (simp add: channel_ok_def)
  have h4: "\<exists>p \<in> set (line_points 7 5 12 5). \<not> inside small_image p"
    by (simp add: lp3 inside_def small_image_def)
  have m: "pixel_msg 10 5 = ''Pixel (x=10, y=5) is out of bounds!''"
    by (simp add: pixel_msg_def str_int_def str_nat.simps digit_char_def)
  have p: "line_points 7 5 12 5 ! 3 = (10, 5)" by (simp add: lp3)
  from line_outside_aborts [OF h1 h2 h3 h4]
  have "fst (line small_image 7 5 12 5 (Tuple4 255 0 0 255))
        = Some (IndexError (pixel_msg (fst (line_points 7 5 12 5 ! 3))
                                      (snd (line_points 7 5 12 5 ! 3))))"
    unfolding Let_def fo3 by blast
  then have "fst (line small_image 7 5 12 5 (Tuple4 255 0 0 255))
        = Some (IndexError (pixel_msg 10 5))"
    by (simp add: p)
  with h1 h2 h3 h4 m show ?thesis by simp
qed

text \<open>
  Claim C10. When a line raises because a pixel is outside the image, the pixels visited
  before that one hold the colour in the image the call leaves behind: the draw is not
  atomic, and the image differs from the one before the call as soon as one of them had
  another colour.
\<close>

theorem line_abort_keeps_prefix:
  assumes "wf_image img" and "validate_rgba color = Inr c" and "pixel_ok c"
    and "\<exists>p \<in> set (line_points sx sy ex ey). \<not> inside img p"
  shows "(let pts = line_points sx sy ex ey; k = first_outside img pts
          in fst (line img sx sy ex ey color) \<noteq> None
           \<and> (\<forall>i < k. get_pixel (snd (line img sx sy ex ey color)) (fst (pts ! i)) (snd (pts ! i))
                         = Inr c)
           \<and> ((\<exists>i < k. get_pixel img (fst (pts ! i)) (snd (pts ! i)) \<noteq> Inr c) \<longrightarrow>
                 snd (line img sx sy ex ey color) \<noteq> img))"
proof -
  let ?pts = "line_points sx sy ex ey"
  let ?k = "first_outside img ?pts"
  note fo = first_outside_some [OF assms(4)]
  note run = line_abort [OF assms(1,2,4)]
  have written: "get_pixel (snd (line img sx sy ex ey color)) (fst (?pts ! i)) (snd (?pts ! i)) = Inr c"
    if i: "i < ?k" for i
  proof -
    from i fo have ins: "inside img (?pts ! i)" by simp
    from i fo(1) have "?pts ! i \<in> set (take ?k ?pts)"
      by (auto simp: in_set_conv_nth intro!: exI [of _ i])
    with get_pixel_fold_write [OF assms(1) take_inside ins] uint8_px_ok [OF assms(3)]
    show ?thesis by (simp add: run)
  qed
  have "snd (line img sx sy ex ey color) \<noteq> img"
    if "\<exists>i < ?k. get_pixel img (fst (?pts ! i)) (snd (?pts ! i)) \<noteq> Inr c"
    using that written by auto
  with written show ?thesis
    unfolding Let_def by (simp add: run)
qed

theorem line_abort_keeps_prefix_witness:
  "wf_image small_image
   \<and> validate_rgba (Tuple4 255 0 0 255) = Inr (255, 0, 0, 255)
   \<and> pixel_ok (255, 0, 0, 255)
   \<and> (\<exists>p \<in> set (line_points 7 5 12 5). \<not> inside small_image p)
   \<and> fst (line small_image 7 5 12 5 (Tuple4 255 0 0 255)) \<noteq> None
   \<and> get_pixel (snd (line small_image 7 5 12 5 (Tuple4 255 0 0 255))) 8 5 = Inr (255, 0, 0, 255)
   \<and> get_pixel small_image 8 5 = Inr (255, 255, 255, 255)
   \<and> snd (line small_image 7 5 12 5 (Tuple4 255 0 0 255)) \<noteq> small_image"
proof -
  have h1: "wf_image small_image" by (rule wf_small_image)
  have h2: "validate_rgba (Tuple4 255 0 0 255) = Inr (255, 0, 0, 255)" by simp
  have h3: "pixel_ok (255, 0, 0, 255)" by (simp add: channel_ok_def)
  have h4: "\<exists>p \<in> set (line_points 7 5 12 5). \<not> inside small_image p"
    by (simp add: lp3 inside_def small_image_def)
  have g: "get_pixel small_image 8 5 = Inr (255, 255, 255, 255)"
    by (simp add: get_pixel_def check_bounds_def np_getitem_def np_index_def small_image_def)
  have nth1: "line_points 7 5 12 5 ! 1 = (8, 5)" by (simp add: lp3)
  from line_abort_keeps_prefix [OF h1 h2 h3 h4]
  have a: "fst (line small_image 7 5 12 5 (Tuple4 255 0 0 255)) \<noteq> None"
    and b: "\<forall>i < 3. get_pixel (snd (line small_image 7 5 12 5 (Tuple4 255 0 0 255)))
               (fst (line_points 7 5 12 5 ! i)) (snd (line_points 7 5 12 5 ! i))
             = Inr (255, 0, 0, 255)"
    and c: "(\<exists>i < 3. get_pixel small_image (fst (line_points 7 5 12 5 ! i))
                 (snd (line_points 7 5 12 5 ! i)) \<noteq> Inr (255, 0, 0, 255))
            \<longrightarrow> snd (line small_image 7 5 12 5 (Tuple4 255 0 0 255)) \<noteq> small_image"
    unfolding Let_def fo3 by blast+
  from b have b': "get_pixel (snd (line small_image 7 5 12 5 (Tuple4 255 0 0 255))) 8 5
                   = Inr (255, 0, 0, 255)"
    using nth1 by (auto dest!: spec [of _ 1])
  have "\<exists>i < (3::nat). get_pixel small_image (fst (line_points 7 5 12 5 ! i))
                 (snd (line_points 7 5 12 5 ! i)) \<noteq> Inr (255, 0, 0, 255)"
    using g nth1 by (intro exI [of _ 1]) simp
  with c have c': "snd (line small_image 7 5 12 5 (Tuple4 255 0 0 255)) \<noteq> small_image"
    by blast
  from a b' c' g h1 h2 h3 h4 show ?thesis by simp
qed

section \<open>Rectangles\<close>

lemma np_setslice_length [simp]: "length (np_setslice arr ys ye xs xe v) = length arr"
  by (simp add: np_setslice_def)

lemma np_setslice_row:
  assumes "j < length arr"
  shows "np_setslice arr ys ye xs xe v ! j
         = (if slice_bound (length arr) ys \<le> j \<and> j < slice_bound (length arr) ye
            then map (\<lambda>(i, p).
                   if slice_bound (length (arr ! j)) xs \<le> i \<and> i < slice_bound (length (arr ! j)) xe
                   then uint8_px v else p)
                 (zip [0..<length (arr ! j)] (arr ! j))
            else arr ! j)"
  using assms by (simp add: np_setslice_def)

lemma np_setslice_row_length:
  "j < length arr \<Longrightarrow> length (np_setslice arr ys ye xs xe v ! j) = length (arr ! j)"
  by (simp add: np_setslice_row)

lemma np_setslice_nth:
  assumes "j < length arr" "i < length (arr ! j)"
  shows "np_setslice arr ys ye xs xe v ! j ! i
         = (if slice_bound (length arr) ys \<le> j \<and> j < slice_bound (length arr) ye
               \<and> slice_bound (length (arr ! j)) xs \<le> i \<and> i < slice_bound (length (arr ! j)) xe
            then uint8_px v else arr ! j ! i)"
  using assms by (simp add: np_setslice_row)

lemma fill_block_size [simp]:
  "width (fill_block v x1 y1 x2 y2 img) = width img"
  "height (fill_block v x1 y1 x2 y2 img) = height img"
  by (simp_all add: fill_block_def)

lemma wf_fill_block:
  assumes "wf_image img"
  shows "wf_image (fill_block v x1 y1 x2 y2 img)"
proof -
  have "length row = nat (width img)"
    if "row \<in> set (np_setslice (rgba_data img) y1 (y2 + 1) x1 (x2 + 1) v)" for row
  proof -
    from that obtain j where j: "j < length (rgba_data img)"
      "row = np_setslice (rgba_data img) y1 (y2 + 1) x1 (x2 + 1) v ! j"
      by (auto simp: in_set_conv_nth)
    then have "length row = length (rgba_data img ! j)"
      by (simp add: np_setslice_row_length)
    with j assms show ?thesis by (simp add: wf_image_def)
  qed
  with assms show ?thesis by (simp add: wf_image_def fill_block_def)
qed

lemma get_pixel_fill_block:
  assumes "wf_image img" "inside img q" "0 \<le> x1" "0 \<le> y1" "x2 < width img" "y2 < height img"
    and "x1 \<le> x2" "y1 \<le> y2"
  shows "get_pixel (fill_block v x1 y1 x2 y2 img) (fst q) (snd q)
         = (if x1 \<le> fst q \<and> fst q \<le> x2 \<and> y1 \<le> snd q \<and> snd q \<le> y2
            then Inr (uint8_px v) else get_pixel img (fst q) (snd q))"
proof -
  let ?d = "rgba_data img"
  from assms have row: "nat (snd q) < length ?d"
    by (simp add: wf_image_def inside_def)
  then have "?d ! nat (snd q) \<in> set ?d" by simp
  with assms have rl: "length (?d ! nat (snd q)) = nat (width img)"
    by (simp add: wf_image_def)
  with assms have col: "nat (fst q) < length (?d ! nat (snd q))"
    by (simp add: inside_def)
  have len: "length ?d = nat (height img)" using assms by (simp add: wf_image_def)
  have ins: "inside (fill_block v x1 y1 x2 y2 img) q"
    using assms by (simp add: inside_def)
  have g1: "get_pixel (fill_block v x1 y1 x2 y2 img) (fst q) (snd q)
        = Inr (np_setslice ?d y1 (y2 + 1) x1 (x2 + 1) v ! nat (snd q) ! nat (fst q))"
    using get_pixel_inside [OF wf_fill_block [OF assms(1)] ins] by (simp add: fill_block_def)
  have g2: "get_pixel img (fst q) (snd q) = Inr (?d ! nat (snd q) ! nat (fst q))"
    using assms by (intro get_pixel_inside)
  have sb: "slice_bound (nat (height img)) y1 = nat y1"
    "slice_bound (nat (width img)) x1 = nat x1"
    "slice_bound (nat (height img)) (y2 + 1) = nat (y2 + 1)"
    "slice_bound (nat (width img)) (x2 + 1) = nat (x2 + 1)"
    using assms(3-8) by (simp_all add: slice_bound_def)
  from assms have q0: "0 \<le> fst q" "0 \<le> snd q" by (simp_all add: inside_def)
  show ?thesis
    unfolding g1 g2 np_setslice_nth [OF row col] len rl
    using q0 assms(3-8) by (auto simp: sb)
qed

lemma sorted2_min_max: "sorted2 p q = (min p q, max p q)"
  by (simp add: sorted2_def min_def max_def)

lemma rectangle_unfold:
  assumes "validate_rgba color = Inr c"
  shows "rectangle img tx ty bx byy color
         = (None,
            if min (width img - 1) (max tx bx) < max 0 (min tx bx)
               \<or> min (height img - 1) (max ty byy) < max 0 (min ty byy)
            then img
            else fill_block c (max 0 (min tx bx)) (max 0 (min ty byy))
                   (min (width img - 1) (max tx bx)) (min (height img - 1) (max ty byy)) img)"
  using assms by (simp add: rectangle_def sorted2_min_max fill_block_def Let_def)

text \<open>
  Claim C7. On a well-formed image and with a valid colour, when the rectangle spanned by
  the two corners meets the image, \<^verbatim>\<open>rectangle\<close> raises nothing, gives the same
  result for the corners in either order, and afterwards exactly the pixels of the
  inclusive range from \<open>(max 0 (min tx bx), max 0 (min ty by))\<close> to
  \<open>(min (width - 1) (max tx bx), min (height - 1) (max ty by))\<close> hold the colour, every
  other pixel being as before.
\<close>

theorem rectangle_fills_clipped:
  assumes "wf_image img" and "validate_rgba color = Inr c" and "pixel_ok c"
    and "max 0 (min tx bx) \<le> min (width img - 1) (max tx bx)"
    and "max 0 (min ty byy) \<le> min (height img - 1) (max ty byy)"
  shows "fst (rectangle img tx ty bx byy color) = None
    \<and> wf_image (snd (rectangle img tx ty bx byy color))
    \<and> rectangle img bx byy tx ty color = rectangle img tx ty bx byy color
    \<and> (\<forall>q. inside img q \<longrightarrow>
          get_pixel (snd (rectangle img tx ty bx byy color)) (fst q) (snd q)
          = (if max 0 (min tx bx) \<le> fst q \<and> fst q \<le> min (width img - 1) (max tx bx)
                \<and> max 0 (min ty byy) \<le> snd q \<and> snd q \<le> min (height img - 1) (max ty byy)
             then Inr c else get_pixel img (fst q) (snd q)))"
proof -
  let ?x1 = "max 0 (min tx bx)" and ?y1 = "max 0 (min ty byy)"
  let ?x2 = "min (width img - 1) (max tx bx)" and ?y2 = "min (height img - 1) (max ty byy)"
  have ne: "\<not> (?x2 < ?x1 \<or> ?y2 < ?y1)"
    using assms(4,5) by linarith
  have run: "rectangle img tx ty bx byy color = (None, fill_block c ?x1 ?y1 ?x2 ?y2 img)"
    by (simp only: rectangle_unfold [OF assms(2)] ne if_False)
  have swap: "rectangle img bx byy tx ty color = rectangle img tx ty bx byy color"
    by (simp add: rectangle_unfold [OF assms(2)] min.commute max.commute)
  have px: "get_pixel (fill_block c ?x1 ?y1 ?x2 ?y2 img) (fst q) (snd q)
            = (if ?x1 \<le> fst q \<and> fst q \<le> ?x2 \<and> ?y1 \<le> snd q \<and> snd q \<le> ?y2
               then Inr c else get_pixel img (fst q) (snd q))"
    if "inside img q" for q
    using get_pixel_fill_block [OF assms(1) that _ _ _ _ assms(4,5), of c]
      uint8_px_ok [OF assms(3)]
    by simp
  show ?thesis
    unfolding run swap using px wf_fill_block [OF assms(1)] by simp
qed

theorem rectangle_fills_clipped_witness:
  "wf_image small_image
   \<and> validate_rgba (Tuple3 255 0 0) = Inr (255, 0, 0, 255)
   \<and> pixel_ok (255, 0, 0, 255)
   \<and> max 0 (min 5 2) \<le> min (width small_image - 1) (max 5 2)
   \<and> max 0 (min 6 3) \<le> min (height small_image - 1) (max 6 3)
   \<and> fst (rectangle small_image 5 6 2 3 (Tuple3 255 0 0)) = None
   \<and> get_pixel (snd (rectangle small_image 5 6 2 3 (Tuple3 255 0 0))) 2 3 = Inr (255, 0, 0, 255)
   \<and> get_pixel (snd (rectangle small_image 5 6 2 3 (Tuple3 255 0 0))) 5 6 = Inr (255, 0, 0, 255)
   \<and> get_pixel (snd (rectangle small_image 5 6 2 3 (Tuple3 255 0 0))) 6 6
       = Inr (255, 255, 255, 255)"
proof -
  have h1: "wf_image small_image" by (rule wf_small_image)
  have h2: "validate_rgba (Tuple3 255 0 0) = Inr (255, 0, 0, 255)" by simp
  have h3: "pixel_ok (255, 0, 0, 255)" by (simp add: channel_ok_def)
  have h4: "max 0 (min 5 2) \<le> min (width small_image - 1) (max 5 2)"
    by (simp add: small_image_def)
  have h5: "max 0 (min 6 3) \<le> min (height small_image - 1) (max 6 3)"
    by (simp add: small_image_def)
  have i: "inside small_image (2, 3)" "inside small_image (5, 6)" "inside small_image (6, 6)"
    by (simp_all add: inside_def small_image_def)
  from rectangle_fills_clipped [OF h1 h2 h3 h4 h5]
  have a: "fst (rectangle small_image 5 6 2 3 (Tuple3 255 0 0)) = None"
    and b: "\<forall>q. inside small_image q \<longrightarrow>
          get_pixel (snd (rectangle small_image 5 6 2 3 (Tuple3 255 0 0))) (fst q) (snd q)
          = (if max 0 (min 5 2) \<le> fst q \<and> fst q \<le> min (width small_image - 1) (max 5 2)
                \<and> max 0 (min 6 3) \<le> snd q \<and> snd q \<le> min (height small_image - 1) (max 6 3)
             then Inr (255, 0, 0, 255) else get_pixel small_image (fst q) (snd q))"
    by blast+
  from b i have
    "get_pixel (snd (rectangle small_image 5 6 2 3 (Tuple3 255 0 0))) 2 3 = Inr (255, 0, 0, 255)"
    "get_pixel (snd (rectangle small_image 5 6 2 3 (Tuple3 255 0 0))) 5 6 = Inr (255, 0, 0, 255)"
    "get_pixel (snd (rectangle small_image 5 6 2 3 (Tuple3 255 0 0))) 6 6
       = Inr (255, 255, 255, 255)"
    using get_small_image [of 6 6]
    by (auto simp: small_image_def dest!: spec [of _ "(2, 3)"] spec [of _ "(5, 6)"] spec [of _ "(6, 6)"])
  with a h1 h2 h3 h4 h5 show ?thesis by simp
qed

text \<open>
  Claim C8. With a colour the normalisation accepts, \<^verbatim>\<open>rectangle\<close> never raises,
  whatever the coordinates; when the clipped range is empty (the rectangle lies outside
  the image) it returns the image unchanged.
\<close>

theorem rectangle_outside_noop:
  assumes "validate_rgba color = Inr c"
  shows "fst (rectangle img tx ty bx byy color) = None
    \<and> (min (width img - 1) (max tx bx) < max 0 (min tx bx)
         \<or> min (height img - 1) (max ty byy) < max 0 (min ty byy)
        \<longrightarrow> rectangle img tx ty bx byy color = (None, img))"
  by (simp add: rectangle_unfold [OF assms])

theorem rectangle_outside_noop_witness:
  "validate_rgba (Tuple3 255 0 0) = Inr (255, 0, 0, 255)
   \<and> min (width small_image - 1) (max 20 30) < max 0 (min 20 30)
   \<and> rectangle small_image 20 20 30 30 (Tuple3 255 0 0) = (None, small_image)"
proof -
  have h: "validate_rgba (Tuple3 255 0 0) = Inr (255, 0, 0, 255)" by simp
  have e: "min (width small_image - 1) (max 20 30) < max 0 (min 20 30)"
    by (simp add: small_image_def)
  from rectangle_outside_noop [OF h, of small_image 20 20 30 30] e h show ?thesis by simp
qed

section \<open>Construction, colours and clearing\<close>



text \<open>
  Claim C1. The normalisation returns a tuple with a channel outside \<open>0..255\<close> as it
  is, without raising, although the \<^verbatim>\<open>rgba\<close> constructor rejects the same value: a
  constructor call with the fill \<open>(300, 0, 0)\<close> succeeds and stores the wrapped channel
  \<open>44\<close>.
\<close>

theorem tuple_channels_unchecked:
  "validate_rgba (Tuple3 300 0 0) = Inr (300, 0, 0, 255)
   \<and> Image 1 1 (Tuple3 300 0 0)
       = Inr \<lparr>width = 1, height = 1, rgba_data = [[(44, 0, 0, 255)]]\<rparr>
   \<and> validate_rgba (Tuple4 0 (- 1) 0 255) = Inr (0, - 1, 0, 255)
   \<and> mk_rgba 300 0 0 255 = Inl (ValueError ''RGBA component r must be an int from 0 to 255'')"
  by (simp add: Image_def uint8_def mk_rgba_def post_init_def)

text \<open>
  Claim C2. \<^verbatim>\<open>clear\<close> hands its argument to the buffer without normalising it: an
  \<^verbatim>\<open>rgba\<close> value, a 3-tuple and \<^verbatim>\<open>None\<close>, which \<^verbatim>\<open>set_pixel\<close>
  accepts, make it raise inside NumPy and leave the image as it was; only a 4-tuple is
  written.
\<close>

theorem clear_skips_normalisation:
  "clear small_image (RgbaVal \<lparr>rgba_r = 255, rgba_g = 0, rgba_b = 0, rgba_a = 255\<rparr>)
     = (Some Numpy_TypeError, small_image)
   \<and> clear small_image (Tuple3 255 0 0) = (Some Numpy_ValueError, small_image)
   \<and> clear small_image PyNone = (Some Numpy_TypeError, small_image)
   \<and> fst (clear small_image (Tuple4 255 0 0 255)) = None
   \<and> fst (set_pixel small_image 0 0
            (RgbaVal \<lparr>rgba_r = 255, rgba_g = 0, rgba_b = 0, rgba_a = 255\<rparr>)) = None
   \<and> fst (set_pixel small_image 0 0 (Tuple3 255 0 0)) = None
   \<and> fst (set_pixel small_image 0 0 PyNone) = None"
  by (simp add: clear_def set_pixel_def check_bounds_def np_setitem_def np_index_def
      small_image_def)

section \<open>The shape of the buffer is kept\<close>

text \<open>
  Every image the constructor returns is well-formed, and every operation leaves a
  well-formed image well-formed, whether it raises or not.
\<close>

lemma wf_Image: "Image w h fill = Inr img \<Longrightarrow> wf_image img"
  by (auto simp: Image_def wf_image_def split: sum.splits if_splits)

lemma wf_set_pixel:
  assumes "wf_image img"
  shows "wf_image (snd (set_pixel img x y v))"
proof (cases "set_pixel img x y v")
  case (Pair e img')
  show ?thesis
  proof (cases e)
    case None
    with Pair obtain t j i where
      "img' = img\<lparr>rgba_data := (rgba_data img)[j := (rgba_data img ! j)[i := uint8_px t]]\<rparr>"
      by (auto simp: set_pixel_def np_setitem_def split: option.splits sum.splits)
    with assms rows_update_length [of "rgba_data img" "nat (width img)" j i "uint8_px t"] Pair
    show ?thesis by (simp add: wf_image_def)
  next
    case (Some err)
    with Pair have "img' = img"
      by (auto simp: set_pixel_def split: option.splits sum.splits)
    with assms Pair show ?thesis by simp
  qed
qed

lemma wf_line:
  assumes "wf_image img"
  shows "wf_image (snd (line img sx sy ex ey color))"
proof (cases "validate_rgba color")
  case (Inl e)
  with assms show ?thesis by (simp add: line_def)
next
  case (Inr c)
  from line_run [OF assms Inr, of sx sy ex ey] assms show ?thesis
    by (simp add: wf_fold_write)
qed

lemma wf_rectangle:
  assumes "wf_image img"
  shows "wf_image (snd (rectangle img tx ty bx byy color))"
proof (cases "validate_rgba color")
  case (Inl e)
  with assms show ?thesis by (simp add: rectangle_def)
next
  case (Inr c)
  from rectangle_unfold [OF Inr, of img tx ty bx byy] assms show ?thesis
    by (simp add: wf_fill_block)
qed

lemma wf_clear:
  assumes "wf_image img"
  shows "wf_image (snd (clear img color))"
  using assms by (cases color) (auto simp: clear_def wf_image_def)

end
